theory Spec2Isabelle
  imports Complex_Main "HOL-Library.Multiset" "HOL-Library.AList"
begin

section \<open>Outcomes of a run and the random source\<close>

text \<open>
  The Python code raises exceptions and draws from numpy's process-wide generator.
  A run of a function is driven by a finite tape of raw draws: every call of the
  generator takes the next number of the tape.  A run ends in one of three ways: it
  returns (\<open>Done\<close>), it raises (\<open>Raised\<close>), or the tape is used up before the code
  has returned (\<open>NoDraws\<close>); a loop that draws for ever gives \<open>NoDraws\<close> on every tape.
\<close>

datatype py_error = ValueError | KeyError | IndexError | NetworkXError

datatype 'a run = Done 'a | Raised py_error | NoDraws

type_synonym tape = "nat list"

text \<open>
  \<open>np.random.choice(a, p=p)\<close>: numpy refuses an empty \<open>a\<close>, a \<open>p\<close> of another length,
  a negative entry and a \<open>p\<close> that does not sum to one; otherwise an element of positive
  probability comes back.  The raw draw selects among the indices of positive
  probability, so every element numpy can return is returned on some tape.
\<close>

definition positive_indices :: "real list \<Rightarrow> nat list" where
  "positive_indices p = filter (\<lambda>i. 0 < p ! i) [0..<length p]"

definition np_random_choice_p :: "'a list \<Rightarrow> real list \<Rightarrow> tape \<Rightarrow> ('a \<times> tape) run" where
  "np_random_choice_p a p tp =
     (if a = [] \<or> length a \<noteq> length p \<or> list_ex (\<lambda>x. x < 0) p \<or> sum_list p \<noteq> 1
      then Raised ValueError
      else case tp of
             [] \<Rightarrow> NoDraws
           | r # tp' \<Rightarrow>
               Done (a ! (positive_indices p ! (r mod length (positive_indices p))), tp'))"

text \<open>\<open>np.random.choice(a)\<close>: uniform over a list, \<open>ValueError\<close> on the empty one.\<close>

definition np_random_choice :: "'a list \<Rightarrow> tape \<Rightarrow> ('a \<times> tape) run" where
  "np_random_choice a tp =
     (if a = [] then Raised ValueError
      else case tp of [] \<Rightarrow> NoDraws | r # tp' \<Rightarrow> Done (a ! (r mod length a), tp'))"

text \<open>
  \<open>np.random.shuffle(x)\<close>: numpy walks \<open>i\<close> from the last index down to 1 and swaps
  \<open>x[i]\<close> with \<open>x[j]\<close> for a drawn \<open>j \<le> i\<close>.
\<close>

fun shuffle_from :: "nat \<Rightarrow> 'a list \<Rightarrow> tape \<Rightarrow> ('a list \<times> tape) run" where
  "shuffle_from 0 xs tp = Done (xs, tp)"
| "shuffle_from (Suc i) xs [] = NoDraws"
| "shuffle_from (Suc i) xs (r # tp) =
     (let j = r mod Suc (Suc i)
      in shuffle_from i (xs[Suc i := xs ! j, j := xs ! Suc i]) tp)"

definition np_random_shuffle :: "'a list \<Rightarrow> tape \<Rightarrow> ('a list \<times> tape) run" where
  "np_random_shuffle xs tp = shuffle_from (length xs - 1) xs tp"

section \<open>Helpers of the repository that the sources do not include\<close>

text \<open>
  Modelled from the spec: \<open>base.norm_dic\<close> is called by \<open>workplaces.py\<close> and is not among
  the sources.  The spec speaks of a "normalized size-bracket probability table" and the
  caller's comment of a count turned into a distribution: every value is divided by the
  total of the values, and a dictionary whose total is zero comes back as it is.
\<close>

definition norm_dic :: "('k \<times> real) list \<Rightarrow> ('k \<times> real) list" where
  "norm_dic dic =
     (let total = sum_list (map snd dic)
      in if total = 0 then dic else map (\<lambda>(k, v). (k, v / total)) dic)"

section \<open>workplaces.py: generate_workplace_sizes\<close>

text \<open>
  Dictionaries are association lists in insertion order with distinct keys.  The
  \<open>while nworkers > 0\<close> loop of lines 81-85: draw a bracket, draw a size of the bracket,
  subtract it and append it.
\<close>

lemma np_random_choice_p_tape:
  "np_random_choice_p a p tp = Done (x, tp') \<Longrightarrow> length tp' < length tp"
  by (auto simp: np_random_choice_p_def split: if_splits list.splits)

lemma np_random_choice_tape:
  "np_random_choice a tp = Done (x, tp') \<Longrightarrow> length tp' < length tp"
  by (auto simp: np_random_choice_def split: if_splits list.splits)

function draw_sizes ::
  "nat list \<Rightarrow> real list \<Rightarrow> (nat \<times> int list) list \<Rightarrow> int \<Rightarrow> int list \<Rightarrow> tape
     \<Rightarrow> (int \<times> int list \<times> tape) run" where
  "draw_sizes sorted_brackets prob workplace_size_brackets nworkers workplace_sizes tp =
     (if nworkers > 0 then
        (case np_random_choice_p sorted_brackets prob tp of
           Raised e \<Rightarrow> Raised e
         | NoDraws \<Rightarrow> NoDraws
         | Done (size_bracket, tp1) \<Rightarrow>
            (case map_of workplace_size_brackets size_bracket of
               None \<Rightarrow> Raised KeyError
             | Some sizes \<Rightarrow>
                (case np_random_choice sizes tp1 of
                   Raised e \<Rightarrow> Raised e
                 | NoDraws \<Rightarrow> NoDraws
                 | Done (sz, tp2) \<Rightarrow>
                     draw_sizes sorted_brackets prob workplace_size_brackets
                       (nworkers - sz) (workplace_sizes @ [sz]) tp2)))
      else Done (nworkers, workplace_sizes, tp))"
  by pat_completeness auto
termination
  by (relation "measure (\<lambda>(sb, p, wsb, n, ws, tp). length tp)")
     (auto dest!: np_random_choice_p_tape np_random_choice_tape)

text \<open>
  Lines 71-89.  \<open>workplace_sizes[-1]\<close> of line 87 raises \<open>IndexError\<close> on the empty list
  (a negative head count).
\<close>

definition lookup_all :: "('k \<times> 'v) list \<Rightarrow> 'k list \<Rightarrow> 'v list option" where
  "lookup_all dic ks = those (map (map_of dic) ks)"

definition correct_last :: "int \<Rightarrow> int list \<Rightarrow> int list" where
  "correct_last nworkers workplace_sizes =
     workplace_sizes[length workplace_sizes - 1 := last workplace_sizes + nworkers]"

definition generate_workplace_sizes ::
  "(nat \<times> real) list \<Rightarrow> (nat \<times> int list) list \<Rightarrow> (nat \<times> int) list \<Rightarrow> tape
     \<Rightarrow> (int list \<times> tape) run" where
  "generate_workplace_sizes workplace_size_distr_by_bracket workplace_size_brackets
       workers_by_age_to_assign_count tp =
     (let nworkers = sum_list (map snd workers_by_age_to_assign_count);
          distr = norm_dic workplace_size_distr_by_bracket;
          sorted_brackets = sort (map fst workplace_size_brackets)
      in case lookup_all distr sorted_brackets of
           None \<Rightarrow> Raised KeyError
         | Some prob_by_sorted_brackets \<Rightarrow>
            (case draw_sizes sorted_brackets prob_by_sorted_brackets workplace_size_brackets
                    nworkers [] tp of
               Raised e \<Rightarrow> Raised e
             | NoDraws \<Rightarrow> NoDraws
             | Done (nworkers', workplace_sizes, tp1) \<Rightarrow>
                 if nworkers' < 0 then
                   (if workplace_sizes = [] then Raised IndexError
                    else np_random_shuffle (correct_last nworkers' workplace_sizes) tp1)
                 else np_random_shuffle workplace_sizes tp1))"

text \<open>
  Well-formed size tables: the distribution and the bracket table have the same distinct
  brackets, the weights are non-negative with a positive total, and every bracket is a
  non-empty range of sizes that are at least 1.
\<close>

definition size_tables_ok :: "(nat \<times> real) list \<Rightarrow> (nat \<times> int list) list \<Rightarrow> bool" where
  "size_tables_ok distr brackets \<longleftrightarrow>
     distinct (map fst distr) \<and> distinct (map fst brackets) \<and>
     set (map fst distr) = set (map fst brackets) \<and> brackets \<noteq> [] \<and>
     (\<forall>v\<in>set (map snd distr). 0 \<le> v) \<and> 0 < sum_list (map snd distr) \<and>
     (\<forall>sizes\<in>set (map snd brackets). sizes \<noteq> [] \<and> (\<forall>s\<in>set sizes. 1 \<le> s))"

declare draw_sizes.simps [simp del]

section \<open>workplaces.py: assign_rest_of_workers\<close>

text \<open>
  Modelled from the spec: \<open>sampling.fast_choice\<close> is called by \<open>workplaces.py\<close> and is not
  among the sources.  The spec has it "draw a target bracket from the row distribution"
  and draw an age "weighted by its remaining assignable count": one draw, an index of
  positive weight.  Where no weight is positive the spec says nothing, and the model lets
  the draw return any index of the list, so that every behaviour of the absent function
  is one of the runs.
\<close>

definition fast_choice :: "real list \<Rightarrow> tape \<Rightarrow> (nat \<times> tape) run" where
  "fast_choice weights tp =
     (case tp of
        [] \<Rightarrow> NoDraws
      | r # tp' \<Rightarrow>
          Done (if positive_indices weights = []
                then (if weights = [] then 0 else r mod length weights)
                else positive_indices weights ! (r mod length (positive_indices weights)), tp'))"

lemma fast_choice_tape:
  "fast_choice weights tp = Done (x, tp') \<Longrightarrow> length tp' < length tp"
  by (auto simp: fast_choice_def split: list.splits)

text \<open>
  The objects the function mutates in place: the dictionary of potential workers
  (uid to age), the pools (age to the list of uids of that age), the counts left to assign
  (age to count) and the workplace contact matrix \<open>contact_matrix_dic['W']\<close>.
\<close>

record workers =
  potential_worker_uids :: "(nat \<times> nat) list"
  potential_worker_uids_by_age :: "(nat \<times> nat list) list"
  workers_by_age_to_assign_count :: "(nat \<times> int) list"
  contact_matrix_W :: "real list list"

definition nrows :: "real list list \<Rightarrow> nat" where
  "nrows m = length m"

definition ncols :: "real list list \<Rightarrow> nat" where
  "ncols m = (case m of [] \<Rightarrow> 0 | row # _ \<Rightarrow> length row)"

text \<open>\<open>m[:, b] = 0\<close>\<close>

definition zero_column :: "nat \<Rightarrow> real list list \<Rightarrow> real list list" where
  "zero_column b m = map (\<lambda>row. row[b := 0]) m"

text \<open>
  Lines 177-180 and 228-230: the row of the anchor's bracket, divided by its sum when the
  sum is positive.
\<close>

definition row_prob :: "real list list \<Rightarrow> nat \<Rightarrow> real list" where
  "row_prob m bindex =
     (let b_prob = m ! bindex; sum_b_prob = sum_list b_prob
      in if sum_b_prob > 0 then map (\<lambda>x. x / sum_b_prob) b_prob else b_prob)"

text \<open>
  Lines 145-150: a bracket with no worker left to assign is turned off in the matrix.
  An index of \<open>-1\<close> into a matrix with no column is an \<open>IndexError\<close>.
\<close>

fun turn_off_brackets ::
  "(nat \<times> nat list) list \<Rightarrow> (nat \<times> int) list \<Rightarrow> real list list \<Rightarrow> real list list run" where
  "turn_off_brackets [] counts m = Done m"
| "turn_off_brackets ((b, ages) # age_brackets) counts m =
     (case lookup_all counts ages of
        None \<Rightarrow> Raised KeyError
      | Some workers_left_in_bracket \<Rightarrow>
          if sum_list workers_left_in_bracket = 0 then
            (if ncols m = 0 then Raised IndexError
             else turn_off_brackets age_brackets counts (zero_column (min b (ncols m - 1)) m))
          else turn_off_brackets age_brackets counts m)"

text \<open>
  The four lines that place a worker (167-169, 192-196, 215-219): the first uid of the
  pool of age \<open>ai\<close> is taken, removed from the pool and popped from the potential
  workers.  \<open>KeyError\<close> without a pool of that age, \<open>IndexError\<close> on an empty pool.
\<close>

definition take_worker :: "nat \<Rightarrow> workers \<Rightarrow> (nat \<times> workers) run" where
  "take_worker ai st =
     (case map_of (potential_worker_uids_by_age st) ai of
        None \<Rightarrow> Raised KeyError
      | Some [] \<Rightarrow> Raised IndexError
      | Some (uid # pool) \<Rightarrow>
          Done (uid, st\<lparr>potential_worker_uids_by_age :=
                          AList.update ai pool (potential_worker_uids_by_age st),
                        potential_worker_uids := AList.delete uid (potential_worker_uids st)\<rparr>))"

text \<open>\<open>workers_by_age_to_assign_count[ai] -= 1\<close>\<close>

definition decrement_count :: "nat \<Rightarrow> workers \<Rightarrow> workers run" where
  "decrement_count ai st =
     (case map_of (workers_by_age_to_assign_count st) ai of
        None \<Rightarrow> Raised KeyError
      | Some c \<Rightarrow>
          Done (st\<lparr>workers_by_age_to_assign_count :=
                     AList.update ai (c - 1) (workers_by_age_to_assign_count st)\<rparr>))"

text \<open>
  Lines 190-197, the drain of the last workplace.  The inner loop places
  \<open>workers_by_age_to_assign_count[ai]\<close> workers of age \<open>ai\<close>, the count is set to zero
  afterwards.
\<close>

fun place_in_order ::
  "nat \<Rightarrow> nat \<Rightarrow> workers \<Rightarrow> nat list \<Rightarrow> nat list \<Rightarrow> (workers \<times> nat list \<times> nat list) run" where
  "place_in_order ai 0 st new_work new_work_uids = Done (st, new_work, new_work_uids)"
| "place_in_order ai (Suc i) st new_work new_work_uids =
     (case take_worker ai st of
        Raised e \<Rightarrow> Raised e
      | NoDraws \<Rightarrow> NoDraws
      | Done (uid, st') \<Rightarrow> place_in_order ai i st' (new_work @ [ai]) (new_work_uids @ [uid]))"

fun grab_everyone ::
  "nat list \<Rightarrow> workers \<Rightarrow> nat list \<Rightarrow> nat list \<Rightarrow> (workers \<times> nat list \<times> nat list) run" where
  "grab_everyone [] st new_work new_work_uids = Done (st, new_work, new_work_uids)"
| "grab_everyone (ai # ages) st new_work new_work_uids =
     (case map_of (workers_by_age_to_assign_count st) ai of
        None \<Rightarrow> Raised KeyError
      | Some c \<Rightarrow>
         (case place_in_order ai (nat c) st new_work new_work_uids of
            Raised e \<Rightarrow> Raised e
          | NoDraws \<Rightarrow> NoDraws
          | Done (st', new_work', new_work_uids') \<Rightarrow>
              grab_everyone ages
                (st'\<lparr>workers_by_age_to_assign_count :=
                       AList.update ai 0 (workers_by_age_to_assign_count st')\<rparr>)
                new_work' new_work_uids'))"

text \<open>
  Lines 204 and 211: the counts of the ages of bracket \<open>bi\<close> whose pool is not empty.
  \<open>None\<close> stands for the \<open>KeyError\<close> of a missing bracket, pool or count.
\<close>

fun counts_of_nonempty_pools ::
  "(nat \<times> nat list) list \<Rightarrow> (nat \<times> int) list \<Rightarrow> nat list \<Rightarrow> int list option" where
  "counts_of_nonempty_pools pools counts [] = Some []"
| "counts_of_nonempty_pools pools counts (a # ages) =
     (case map_of pools a of
        None \<Rightarrow> None
      | Some pool \<Rightarrow>
          if length pool > 0 then
            (case map_of counts a of
               None \<Rightarrow> None
             | Some c \<Rightarrow> map_option ((#) c) (counts_of_nonempty_pools pools counts ages))
          else counts_of_nonempty_pools pools counts ages)"

definition workers_left_in_bracket ::
  "(nat \<times> nat list) list \<Rightarrow> workers \<Rightarrow> nat \<Rightarrow> int list option" where
  "workers_left_in_bracket age_brackets st bi =
     (case map_of age_brackets bi of
        None \<Rightarrow> None
      | Some ages \<Rightarrow>
          counts_of_nonempty_pools (potential_worker_uids_by_age st)
            (workers_by_age_to_assign_count st) ages)"

text \<open>
  Lines 208-211: while the drawn bracket has no worker left, its weight is set to zero
  in a copy of the row and another bracket is drawn.
\<close>

function pick_bracket ::
  "(nat \<times> nat list) list \<Rightarrow> workers \<Rightarrow> real list \<Rightarrow> nat \<Rightarrow> int list \<Rightarrow> tape \<Rightarrow> (nat \<times> tape) run" where
  "pick_bracket age_brackets st loop_b_prob bi left tp =
     (if sum_list left = 0 then
        (if length loop_b_prob \<le> bi then Raised IndexError
         else case fast_choice (loop_b_prob[bi := 0]) tp of
                Raised e \<Rightarrow> Raised e
              | NoDraws \<Rightarrow> NoDraws
              | Done (bi', tp') \<Rightarrow>
                 (case workers_left_in_bracket age_brackets st bi' of
                    None \<Rightarrow> Raised KeyError
                  | Some left' \<Rightarrow>
                      pick_bracket age_brackets st (loop_b_prob[bi := 0]) bi' left' tp'))
      else Done (bi, tp))"
  by pat_completeness auto
termination
  by (relation "measure (\<lambda>(ab, st, lbp, bi, left, tp). length tp)")
     (auto dest!: fast_choice_tape)

declare pick_bracket.simps [simp del]

text \<open>
  Lines 207-221, the body of \<open>if np.sum(b_prob)\<close>: a bracket with workers left is
  settled, an age of the bracket is drawn by its count, and a worker of that age is
  placed.
\<close>

definition place_by_mixing ::
  "(nat \<times> nat list) list \<Rightarrow> real list \<Rightarrow> nat \<Rightarrow> int list \<Rightarrow> workers \<Rightarrow> nat list \<Rightarrow> nat list
     \<Rightarrow> tape \<Rightarrow> (nat \<times> workers \<times> nat list \<times> nat list \<times> tape) run" where
  "place_by_mixing age_brackets b_prob bi0 left st new_work new_work_uids tp1 =
     (case pick_bracket age_brackets st b_prob bi0 left tp1 of
        Raised e \<Rightarrow> Raised e
      | NoDraws \<Rightarrow> NoDraws
      | Done (bi, tp2) \<Rightarrow>
        (case map_of age_brackets bi of
           None \<Rightarrow> Raised KeyError
         | Some ages \<Rightarrow>
          (case lookup_all (workers_by_age_to_assign_count st) ages of
             None \<Rightarrow> Raised KeyError
           | Some a_prob \<Rightarrow>
            (case fast_choice (map real_of_int a_prob) tp2 of
               Raised e \<Rightarrow> Raised e
             | NoDraws \<Rightarrow> NoDraws
             | Done (k, tp3) \<Rightarrow>
                if length ages \<le> k then Raised IndexError
                else (case take_worker (ages ! k) st of
                   Raised e \<Rightarrow> Raised e
                 | NoDraws \<Rightarrow> NoDraws
                 | Done (uid, st1) \<Rightarrow>
                    (case decrement_count (ages ! k) st1 of
                       Raised e \<Rightarrow> Raised e
                     | NoDraws \<Rightarrow> NoDraws
                     | Done st2 \<Rightarrow>
                         Done (bi, st2, new_work @ [ages ! k], new_work_uids @ [uid], tp3)))))))"

text \<open>
  Lines 223-230: when no worker is left to assign in bracket \<open>bi\<close>, its column of the
  matrix is set to zero and the row distribution is computed again.
\<close>

definition turn_off_if_empty ::
  "(nat \<times> nat list) list \<Rightarrow> nat \<Rightarrow> real list \<Rightarrow> nat \<Rightarrow> workers \<Rightarrow> (real list \<times> workers) run" where
  "turn_off_if_empty age_brackets bindex b_prob bi st =
     (case map_of age_brackets bi of
        None \<Rightarrow> Raised KeyError
      | Some ages \<Rightarrow>
       (case lookup_all (workers_by_age_to_assign_count st) ages of
          None \<Rightarrow> Raised KeyError
        | Some left_after \<Rightarrow>
            if sum_list left_after = 0 then
              (if ncols (contact_matrix_W st) \<le> bi then Raised IndexError
               else
                 let m = zero_column bi (contact_matrix_W st)
                 in Done (row_prob m bindex, st\<lparr>contact_matrix_W := m\<rparr>))
            else Done (b_prob, st)))"

text \<open>
  Lines 202-230, one pass of \<open>for i in range(1, size)\<close>.  The pass returns the row
  distribution for the next pass together with the updated objects.
\<close>

definition fill_slot ::
  "(nat \<times> nat list) list \<Rightarrow> nat \<Rightarrow> real list \<Rightarrow> workers \<Rightarrow> nat list \<Rightarrow> nat list \<Rightarrow> tape
     \<Rightarrow> (real list \<times> workers \<times> nat list \<times> nat list \<times> tape) run" where
  "fill_slot age_brackets bindex b_prob st new_work new_work_uids tp =
     (case fast_choice b_prob tp of
        Raised e \<Rightarrow> Raised e
      | NoDraws \<Rightarrow> NoDraws
      | Done (bi0, tp1) \<Rightarrow>
       (case workers_left_in_bracket age_brackets st bi0 of
          None \<Rightarrow> Raised KeyError
        | Some left \<Rightarrow>
         (case
            (if sum_list b_prob \<noteq> 0
             then place_by_mixing age_brackets b_prob bi0 left st new_work new_work_uids tp1
             else Done (bi0, st, new_work, new_work_uids, tp1)) of
            Raised e \<Rightarrow> Raised e
          | NoDraws \<Rightarrow> NoDraws
          | Done (bi, st2, new_work', new_work_uids', tp3) \<Rightarrow>
             (case turn_off_if_empty age_brackets bindex b_prob bi st2 of
                Raised e \<Rightarrow> Raised e
              | NoDraws \<Rightarrow> NoDraws
              | Done (b_prob', st3) \<Rightarrow>
                  Done (b_prob', st3, new_work', new_work_uids', tp3)))))"

fun fill_slots ::
  "(nat \<times> nat list) list \<Rightarrow> nat \<Rightarrow> nat \<Rightarrow> real list \<Rightarrow> workers \<Rightarrow> nat list \<Rightarrow> nat list \<Rightarrow> tape
     \<Rightarrow> (workers \<times> nat list \<times> nat list \<times> tape) run" where
  "fill_slots age_brackets bindex 0 b_prob st new_work new_work_uids tp =
     Done (st, new_work, new_work_uids, tp)"
| "fill_slots age_brackets bindex (Suc n) b_prob st new_work new_work_uids tp =
     (case fill_slot age_brackets bindex b_prob st new_work new_work_uids tp of
        Raised e \<Rightarrow> Raised e
      | NoDraws \<Rightarrow> NoDraws
      | Done (b_prob', st', new_work', new_work_uids', tp') \<Rightarrow>
          fill_slots age_brackets bindex n b_prob' st' new_work' new_work_uids' tp')"

text \<open>
  Lines 153-235, the body of \<open>for n, size in enumerate(workplace_sizes)\<close> after the two
  \<open>break\<close> tests: the anchor is drawn by age in proportion to the counts, the target
  size is clamped, and the workplace is either the drain of everyone left or is filled
  slot by slot.
\<close>

definition one_workplace ::
  "(nat \<times> nat list) list \<Rightarrow> (nat \<times> nat) list \<Rightarrow> int \<Rightarrow> workers \<Rightarrow> tape
     \<Rightarrow> (nat list \<times> nat list \<times> workers \<times> tape) run" where
  "one_workplace age_brackets age_by_brackets_dic sz st tp =
     (let sorted_worker_age_keys = sort (map fst (workers_by_age_to_assign_count st))
      in case lookup_all (workers_by_age_to_assign_count st) sorted_worker_age_keys of
        None \<Rightarrow> Raised KeyError
      | Some a_count \<Rightarrow>
       (case np_random_choice_p sorted_worker_age_keys
               (map (\<lambda>c. real_of_int c / real_of_int (sum_list a_count)) a_count) tp of
          Raised e \<Rightarrow> Raised e
        | NoDraws \<Rightarrow> NoDraws
        | Done (aindex, tp1) \<Rightarrow>
         (case take_worker aindex st of
            Raised e \<Rightarrow> Raised e
          | NoDraws \<Rightarrow> NoDraws
          | Done (uid, st1) \<Rightarrow>
           (case decrement_count aindex st1 of
              Raised e \<Rightarrow> Raised e
            | NoDraws \<Rightarrow> NoDraws
            | Done st2 \<Rightarrow>
             (case map_of age_by_brackets_dic aindex of
                None \<Rightarrow> Raised KeyError
              | Some b \<Rightarrow>
                 if nrows (contact_matrix_W st2) = 0 then Raised IndexError
                 else
                   let bindex = min b (nrows (contact_matrix_W st2) - 1);
                       b_prob = row_prob (contact_matrix_W st2) bindex;
                       n_potential = int (length (potential_worker_uids st2));
                       size1 = (if sz > n_potential - 1 then n_potential - 1 else sz);
                       workers_left_count = sum_list (map snd (workers_by_age_to_assign_count st2));
                       size2 = (if size1 > workers_left_count then workers_left_count + 1 else size1)
                   in if n_potential \<le> size2 \<or> workers_left_count \<le> size2 then
                        (case grab_everyone (map fst (workers_by_age_to_assign_count st2)) st2
                                [aindex] [uid] of
                           Raised e \<Rightarrow> Raised e
                         | NoDraws \<Rightarrow> NoDraws
                         | Done (st3, new_work, new_work_uids) \<Rightarrow>
                             Done (new_work, new_work_uids, st3, tp1))
                      else
                        (case fill_slots age_brackets bindex (nat (size2 - 1)) b_prob st2
                                [aindex] [uid] tp1 of
                           Raised e \<Rightarrow> Raised e
                         | NoDraws \<Rightarrow> NoDraws
                         | Done (st3, new_work, new_work_uids, tp2) \<Rightarrow>
                             Done (new_work, new_work_uids, st3, tp2)))))))"

text \<open>Lines 152-157 and 234-235: the loop over the sizes with its two \<open>break\<close> tests.\<close>

fun workplaces_loop ::
  "(nat \<times> nat list) list \<Rightarrow> (nat \<times> nat) list \<Rightarrow> int list \<Rightarrow> workers \<Rightarrow> nat list list
     \<Rightarrow> nat list list \<Rightarrow> tape \<Rightarrow> (nat list list \<times> nat list list \<times> workers \<times> tape) run" where
  "workplaces_loop age_brackets age_by_brackets_dic [] st syn_workplaces syn_workplace_uids tp =
     Done (syn_workplaces, syn_workplace_uids, st, tp)"
| "workplaces_loop age_brackets age_by_brackets_dic (sz # workplace_sizes) st syn_workplaces
       syn_workplace_uids tp =
     (if sum_list (map snd (norm_dic (map (\<lambda>(a, c). (a, real_of_int c))
            (workers_by_age_to_assign_count st)))) = 0
      then Done (syn_workplaces, syn_workplace_uids, st, tp)
      else if sum_list (map (\<lambda>(a, v). length v) (potential_worker_uids_by_age st)) = 0
      then Done (syn_workplaces, syn_workplace_uids, st, tp)
      else case one_workplace age_brackets age_by_brackets_dic sz st tp of
             Raised e \<Rightarrow> Raised e
           | NoDraws \<Rightarrow> NoDraws
           | Done (new_work, new_work_uids, st', tp') \<Rightarrow>
               workplaces_loop age_brackets age_by_brackets_dic workplace_sizes st'
                 (syn_workplaces @ [new_work]) (syn_workplace_uids @ [new_work_uids]) tp')"

text \<open>
  Lines 139-236.  The result carries the two lists of workplaces and the mutated objects
  (the argument \<open>age_by_uid_dic\<close> is not read by the function).
\<close>

definition assign_rest_of_workers ::
  "int list \<Rightarrow> (nat \<times> nat) list \<Rightarrow> (nat \<times> nat list) list \<Rightarrow> (nat \<times> int) list
     \<Rightarrow> (nat \<times> nat list) list \<Rightarrow> (nat \<times> nat) list \<Rightarrow> real list list \<Rightarrow> tape
     \<Rightarrow> (nat list list \<times> nat list list \<times> workers \<times> tape) run" where
  "assign_rest_of_workers workplace_sizes potential pools counts age_brackets
       age_by_brackets_dic contact_matrix tp =
     (case turn_off_brackets age_brackets counts contact_matrix of
        Raised e \<Rightarrow> Raised e
      | NoDraws \<Rightarrow> NoDraws
      | Done m \<Rightarrow>
          workplaces_loop age_brackets age_by_brackets_dic workplace_sizes
            \<lparr>potential_worker_uids = potential, potential_worker_uids_by_age = pools,
             workers_by_age_to_assign_count = counts, contact_matrix_W = m\<rparr>
            [] [] tp)"

text \<open>
  Notions used to state the properties: the uids held by the pools, the dictionaries'
  keys being distinct (they are Python dictionaries), and the target size of a workplace
  after the two clamps of lines 182-186.
\<close>

definition pooled_uids :: "workers \<Rightarrow> nat list" where
  "pooled_uids st = concat (map snd (potential_worker_uids_by_age st))"

definition dicts_ok :: "workers \<Rightarrow> bool" where
  "dicts_ok st \<longleftrightarrow>
     distinct (map fst (potential_worker_uids_by_age st)) \<and>
     distinct (map fst (workers_by_age_to_assign_count st))"

definition clamp_size :: "int \<Rightarrow> workers \<Rightarrow> int" where
  "clamp_size sz st2 =
     (let n_potential = int (length (potential_worker_uids st2));
          size1 = (if sz > n_potential - 1 then n_potential - 1 else sz);
          workers_left_count = sum_list (map snd (workers_by_age_to_assign_count st2))
      in if size1 > workers_left_count then workers_left_count + 1 else size1)"

definition counts_nonneg :: "workers \<Rightarrow> bool" where
  "counts_nonneg st \<longleftrightarrow> list_all (\<lambda>c. 0 \<le> c) (map snd (workers_by_age_to_assign_count st))"

section \<open>contact_networks.py: the population dictionary\<close>

text \<open>
  \<open>popdict\<close> maps a uid to the dictionary of a person.  The contacts of a person are a
  dictionary from the layer key (\<open>'H'\<close>, \<open>'S'\<close>, \<open>'W'\<close>, \<open>'C'\<close>, \<open>'LTCF'\<close>) to a set of
  uids.  The keys \<open>'loc'\<close>, \<open>'sc_type'\<close> and \<open>'sc_mixing_type'\<close> hold no contact data and
  are left out; a key that is absent and a key that holds \<open>None\<close> are both \<open>None\<close>.
\<close>

record person =
  age :: int
  sex :: nat
  contacts :: "string \<rightharpoonup> nat set"
  snf_res :: "nat option"
  snf_staff :: "nat option"
  snfid :: "nat option"
  hhid :: "nat option"
  scid :: "nat option"
  sc_student :: "nat option"
  sc_teacher :: "nat option"
  sc_staff :: "nat option"
  wpid :: "nat option"
  wpindcode :: "int option"

type_synonym popdict = "nat \<rightharpoonup> person"

text \<open>
  A \<open>for\<close> loop over a list whose body may raise: the state is threaded through, the
  first exception ends the loop.
\<close>

primrec for_each :: "'a list \<Rightarrow> ('a \<Rightarrow> 's \<Rightarrow> 's run) \<Rightarrow> 's \<Rightarrow> 's run" where
  "for_each [] body s = Done s"
| "for_each (x # xs) body s =
     (case body x s of
        Raised e \<Rightarrow> Raised e
      | NoDraws \<Rightarrow> NoDraws
      | Done s' \<Rightarrow> for_each xs body s')"

definition enumerate_list :: "'a list \<Rightarrow> (nat \<times> 'a) list" where
  "enumerate_list xs = zip [0..<length xs] xs"

text \<open>\<open>popdict[uid][...] = ...\<close>: \<open>KeyError\<close> when the uid is not a key of \<open>popdict\<close>.\<close>

definition update_person :: "(person \<Rightarrow> person) \<Rightarrow> nat \<Rightarrow> popdict \<Rightarrow> popdict run" where
  "update_person f uid popdict =
     (case popdict uid of
        None \<Rightarrow> Raised KeyError
      | Some p \<Rightarrow> Done (popdict(uid \<mapsto> f p)))"

text \<open>\<open>popdict[uid]['contacts'][k] = s\<close>\<close>

definition set_contacts :: "string \<Rightarrow> nat set \<Rightarrow> person \<Rightarrow> person" where
  "set_contacts k s p = p\<lparr>contacts := (contacts p)(k \<mapsto> s)\<rparr>"

text \<open>
  \<open>popdict[uid]['contacts'][k].add(c)\<close>: \<open>KeyError\<close> when the uid is not a key of
  \<open>popdict\<close> or the person has no contact set for \<open>k\<close>.
\<close>

definition add_contact :: "string \<Rightarrow> nat \<Rightarrow> nat \<Rightarrow> popdict \<Rightarrow> popdict run" where
  "add_contact k c uid popdict =
     (case popdict uid of
        None \<Rightarrow> Raised KeyError
      | Some p \<Rightarrow>
         (case contacts p k of
            None \<Rightarrow> Raised KeyError
          | Some s \<Rightarrow> Done (popdict(uid \<mapsto> set_contacts k (insert c s) p))))"

section \<open>contact_networks.py: create_reduced_contacts_with_group_types\<close>

text \<open>
  The networkx graph \<open>G\<close> on the nodes \<open>0..n-1\<close> is the list of its edges; an edge is read
  in both directions.  \<open>G.neighbors\<close> lists every neighbour once, \<open>G.remove_edge\<close>
  raises \<open>NetworkXError\<close> for an edge that is not there.
\<close>

type_synonym graph = "(nat \<times> nat) list"

definition has_edge :: "graph \<Rightarrow> nat \<Rightarrow> nat \<Rightarrow> bool" where
  "has_edge G i j \<longleftrightarrow> (i, j) \<in> set G \<or> (j, i) \<in> set G"

definition neighbors :: "graph \<Rightarrow> nat \<Rightarrow> nat list" where
  "neighbors G i = remdups (concat (map (\<lambda>(a, b). if a = i then [b] else if b = i then [a] else []) G))"

definition add_edge :: "graph \<Rightarrow> nat \<Rightarrow> nat \<Rightarrow> graph" where
  "add_edge G i j = (if has_edge G i j then G else G @ [(i, j)])"

definition remove_edge :: "graph \<Rightarrow> nat \<Rightarrow> nat \<Rightarrow> graph run" where
  "remove_edge G i j =
     (if has_edge G i j then Done (filter (\<lambda>e. e \<noteq> (i, j) \<and> e \<noteq> (j, i)) G)
      else Raised NetworkXError)"

definition complete_graph :: "nat \<Rightarrow> graph" where
  "complete_graph n = concat (map (\<lambda>i. map (\<lambda>j. (i, j)) [Suc i..<n]) [0..<n])"

text \<open>
  \<open>nx.stochastic_block_model(sizes, p_matrix)\<close> with the default \<open>p_matrix\<close>, every entry
  \<open>average_degree / n\<close>, which lies strictly between 0 and 1 where the function is called:
  every pair of nodes is an edge or not by a draw of its own, no self loop.
\<close>

fun draw_edges :: "(nat \<times> nat) list \<Rightarrow> tape \<Rightarrow> (graph \<times> tape) run" where
  "draw_edges [] tp = Done ([], tp)"
| "draw_edges (e # es) [] = NoDraws"
| "draw_edges (e # es) (r # tp) =
     (case draw_edges es tp of
        Raised x \<Rightarrow> Raised x
      | NoDraws \<Rightarrow> NoDraws
      | Done (G, tp') \<Rightarrow> Done (if odd r then e # G else G, tp'))"

definition stochastic_block_model :: "nat \<Rightarrow> tape \<Rightarrow> (graph \<times> tape) run" where
  "stochastic_block_model n tp = draw_edges (complete_graph n) tp"

text \<open>Lines 323-326: \<open>ncut\<close> random contacts of node \<open>i\<close> within group 1 are cut.\<close>

fun cut_contacts :: "nat \<Rightarrow> nat \<Rightarrow> nat list \<Rightarrow> graph \<times> tape \<Rightarrow> (graph \<times> tape) run" where
  "cut_contacts i 0 group_1_neighbors (G, tp) = Done (G, tp)"
| "cut_contacts i (Suc k) group_1_neighbors (G, tp) =
     (case np_random_choice group_1_neighbors tp of
        Raised e \<Rightarrow> Raised e
      | NoDraws \<Rightarrow> NoDraws
      | Done (j, tp') \<Rightarrow>
         (case remove_edge G i j of
            Raised e \<Rightarrow> Raised e
          | NoDraws \<Rightarrow> NoDraws
          | Done G' \<Rightarrow> cut_contacts i k (remove1 j group_1_neighbors) (G', tp')))"

text \<open>Lines 315-326, the body of \<open>for i in n1\<close> when group 2 is a single person.\<close>

definition trim_group_1 :: "nat list \<Rightarrow> int \<Rightarrow> nat \<Rightarrow> graph \<times> tape \<Rightarrow> (graph \<times> tape) run" where
  "trim_group_1 n1 average_degree i s =
     (let group_1_neighbors = filter (\<lambda>j. j \<in> set n1) (neighbors (fst s) i)
      in if int (length group_1_neighbors) > average_degree
         then cut_contacts i (nat (int (length group_1_neighbors) - average_degree))
                group_1_neighbors s
         else Done s)"

text \<open>Lines 347-354, the body of \<open>for i in n1\<close> when nobody in group 2 has an edge to cut.\<close>

definition force_cross_edge :: "nat list \<Rightarrow> nat \<Rightarrow> graph \<times> tape \<Rightarrow> (graph \<times> tape) run" where
  "force_cross_edge n2 i s =
     (if filter (\<lambda>j. j \<in> set n2) (neighbors (fst s) i) = [] then
        (case np_random_choice n2 (snd s) of
           Raised e \<Rightarrow> Raised e
         | NoDraws \<Rightarrow> NoDraws
         | Done (random_group_2_j, tp') \<Rightarrow> Done (add_edge (fst s) i random_group_2_j, tp'))
      else Done s)"

text \<open>Lines 358-373, the body of \<open>for i in n1\<close> when some in group 2 have an edge to cut.\<close>

definition swap_cross_edge :: "nat list \<Rightarrow> nat \<Rightarrow> graph \<times> tape \<Rightarrow> (graph \<times> tape) run" where
  "swap_cross_edge n2 i s =
     (if filter (\<lambda>j. j \<in> set n2) (neighbors (fst s) i) = [] then
        (case np_random_choice n2 (snd s) of
           Raised e \<Rightarrow> Raised e
         | NoDraws \<Rightarrow> NoDraws
         | Done (random_group_2_j, tp1) \<Rightarrow>
            (let random_group_2_neighbors =
                   filter (\<lambda>ii. ii \<in> set n2) (neighbors (fst s) random_group_2_j);
                 G1 = add_edge (fst s) i random_group_2_j
             in if length random_group_2_neighbors > 0 then
                  (case np_random_choice random_group_2_neighbors tp1 of
                     Raised e \<Rightarrow> Raised e
                   | NoDraws \<Rightarrow> NoDraws
                   | Done (random_group_2_neighbor_cut, tp2) \<Rightarrow>
                      (case remove_edge G1 random_group_2_j random_group_2_neighbor_cut of
                         Raised e \<Rightarrow> Raised e
                       | NoDraws \<Rightarrow> NoDraws
                       | Done G2 \<Rightarrow> Done (G2, tp2)))
                else Done (G1, tp1)))
      else Done s)"

text \<open>
  Lines 308-373: the graph of the three regimes.  \<open>n1\<close> and \<open>n2\<close> are the node numbers of
  the two groups.
\<close>

definition build_graph :: "nat \<Rightarrow> nat \<Rightarrow> int \<Rightarrow> tape \<Rightarrow> (graph \<times> tape) run" where
  "build_graph len1 len2 average_degree tp =
     (let n1 = [0..<len1]; n2 = [len1..<len1 + len2]
      in if int (len1 + len2) \<le> average_degree then Done (complete_graph (len1 + len2), tp)
         else if len2 < 2 then
           for_each n1 (trim_group_1 n1 average_degree) (complete_graph (len1 + len2), tp)
         else
           (case stochastic_block_model (len1 + len2) tp of
              Raised e \<Rightarrow> Raised e
            | NoDraws \<Rightarrow> NoDraws
            | Done (G, tp1) \<Rightarrow>
                if filter (\<lambda>i. filter (\<lambda>j. j \<in> set n2) (neighbors G i) \<noteq> []) n2 = []
                then for_each n1 (force_cross_edge n2) (G, tp1)
                else for_each n1 (swap_cross_edge n2) (G, tp1)))"

text \<open>
  Lines 375-383: every edge is added to the contact sets of both of its ends.  The
  dictionary is mutated in place, so the loop hands back the dictionary as it stands when
  an exception ends it.
\<close>

fun add_edges :: "nat list \<Rightarrow> string \<Rightarrow> graph \<Rightarrow> popdict \<Rightarrow> popdict \<times> unit run" where
  "add_edges grp setting [] popdict = (popdict, Done ())"
| "add_edges grp setting ((i, j) # E) popdict =
     (if length grp \<le> i \<or> length grp \<le> j then (popdict, Raised IndexError)
      else case add_contact setting (grp ! j) (grp ! i) popdict of
             Raised e \<Rightarrow> (popdict, Raised e)
           | NoDraws \<Rightarrow> (popdict, NoDraws)
           | Done popdict1 \<Rightarrow>
              (case add_contact setting (grp ! i) (grp ! j) popdict1 of
                 Raised e \<Rightarrow> (popdict1, Raised e)
               | NoDraws \<Rightarrow> (popdict1, NoDraws)
               | Done popdict2 \<Rightarrow> add_edges grp setting E popdict2))"

text \<open>Lines 305-306: \<open>popdict[i]['contacts'].setdefault(setting, set())\<close> for every person.\<close>

definition setdefault_setting :: "string \<Rightarrow> popdict \<Rightarrow> popdict" where
  "setdefault_setting setting popdict =
     (\<lambda>i. map_option
             (\<lambda>p. case contacts p setting of None \<Rightarrow> set_contacts setting {} p | Some s \<Rightarrow> p)
             (popdict i))"

text \<open>
  Lines 288-385, with the optional \<open>p_matrix\<close> at its default \<open>None\<close> (as at the call in
  this repository); the argument \<open>force_cross_edges\<close> is not read by the function.  The
  first component of the result is \<open>popdict\<close> as the call leaves it in memory, also when
  it raises; the second is the outcome with the rest of the tape.
\<close>

definition create_reduced_contacts_with_group_types ::
  "popdict \<Rightarrow> nat list \<Rightarrow> nat list \<Rightarrow> string \<Rightarrow> int \<Rightarrow> tape \<Rightarrow> popdict \<times> tape run" where
  "create_reduced_contacts_with_group_types popdict group_1 group_2 setting average_degree tp =
     (if length group_1 = 0 \<or> length group_2 = 0 then (popdict, Raised ValueError)
      else if average_degree < 2 then (popdict, Raised ValueError)
      else
        let grp = group_1 @ group_2;
            popdict1 = setdefault_setting setting popdict
        in case build_graph (length group_1) (length group_2) average_degree tp of
             Raised e \<Rightarrow> (popdict1, Raised e)
           | NoDraws \<Rightarrow> (popdict1, NoDraws)
           | Done (G, tp') \<Rightarrow>
              (case add_edges grp setting G popdict1 of
                 (popdict2, Raised e) \<Rightarrow> (popdict2, Raised e)
               | (popdict2, NoDraws) \<Rightarrow> (popdict2, NoDraws)
               | (popdict2, Done u) \<Rightarrow> (popdict2, Done tp')))"

text \<open>
  Notions used to state the properties: the contact set of a person for a layer (empty
  where the person or the layer is missing), every person having a contact set for a
  layer, and a graph on the nodes below \<open>n\<close> without self loops.
\<close>

definition contact_set :: "popdict \<Rightarrow> nat \<Rightarrow> string \<Rightarrow> nat set" where
  "contact_set popdict uid k =
     (case popdict uid of
        None \<Rightarrow> {}
      | Some p \<Rightarrow> (case contacts p k of None \<Rightarrow> {} | Some s \<Rightarrow> s))"

definition has_setting :: "popdict \<Rightarrow> string \<Rightarrow> bool" where
  "has_setting popdict k \<longleftrightarrow> (\<forall>uid p. popdict uid = Some p \<longrightarrow> contacts p k \<noteq> None)"

definition simple_on :: "nat \<Rightarrow> graph \<Rightarrow> bool" where
  "simple_on n G \<longleftrightarrow> list_all (\<lambda>(i, j). i < n \<and> j < n \<and> i \<noteq> j) G"

text \<open>The uids that the edges of a graph give to the person \<open>u\<close> as contacts.\<close>

definition edge_contacts :: "nat list \<Rightarrow> graph \<Rightarrow> nat \<Rightarrow> nat set" where
  "edge_contacts grp E u =
     {c. \<exists>i j. ((i, j) \<in> set E \<or> (j, i) \<in> set E) \<and> grp ! i = u \<and> c = grp ! j}"

section \<open>contact_networks.py: make_contacts_from_microstructure_objects\<close>

text \<open>Sequencing of two steps that may raise.\<close>

definition bind_run :: "'a run \<Rightarrow> ('a \<Rightarrow> 'b run) \<Rightarrow> 'b run" where
  "bind_run m f = (case m of Raised e \<Rightarrow> Raised e | NoDraws \<Rightarrow> NoDraws | Done x \<Rightarrow> f x)"

text \<open>Lines 116-137: the dictionary of a new person, every layer with an empty set.\<close>

definition layer_keys :: "bool \<Rightarrow> string list" where
  "layer_keys use_ltcf =
     (if use_ltcf then [''H'', ''S'', ''W'', ''C'', ''LTCF''] else [''H'', ''S'', ''W'', ''C''])"

definition new_person :: "bool \<Rightarrow> int \<Rightarrow> nat \<Rightarrow> person" where
  "new_person use_ltcf a s =
     \<lparr>age = a, sex = s, contacts = map_of (map (\<lambda>k. (k, {})) (layer_keys use_ltcf)),
      snf_res = None, snf_staff = None, snfid = None, hhid = None, scid = None,
      sc_student = None, sc_teacher = None, sc_staff = None, wpid = None, wpindcode = None\<rparr>"

fun init_popdict :: "bool \<Rightarrow> (nat \<times> int) list \<Rightarrow> nat list \<Rightarrow> popdict \<Rightarrow> popdict" where
  "init_popdict use_ltcf ((uid, a) # ages) (s # sexes) popdict =
     init_popdict use_ltcf ages sexes (popdict(uid \<mapsto> new_person use_ltcf a s))"
| "init_popdict use_ltcf ages sexes popdict = popdict"

text \<open>Lines 141-167, the body of the loop over the facilities.\<close>

definition mark_resident :: "nat \<Rightarrow> nat \<Rightarrow> popdict \<Rightarrow> popdict run" where
  "mark_resident nf = update_person (\<lambda>p. p\<lparr>snf_res := Some 1, snfid := Some nf\<rparr>)"

definition mark_staff :: "nat \<Rightarrow> nat \<Rightarrow> popdict \<Rightarrow> popdict run" where
  "mark_staff nf = update_person (\<lambda>p. p\<lparr>snf_staff := Some 1, snfid := Some nf\<rparr>)"

definition facility_clique :: "nat list \<Rightarrow> nat list \<Rightarrow> nat \<Rightarrow> popdict \<Rightarrow> popdict run" where
  "facility_clique facility facility_staff uid =
     update_person (set_contacts ''LTCF'' (set facility \<union> set facility_staff - {uid})) uid"

definition facility_step ::
  "bool \<Rightarrow> int \<Rightarrow> nat list list \<Rightarrow> nat \<times> nat list \<Rightarrow> popdict \<times> tape \<Rightarrow> (popdict \<times> tape) run" where
  "facility_step use_two_group_reduction average_LTCF_degree facilities_staff_uids nf_facility s =
     (if length facilities_staff_uids \<le> fst nf_facility then Raised IndexError
      else
        let nf = fst nf_facility; facility = snd nf_facility;
            facility_staff = facilities_staff_uids ! nf
        in bind_run (for_each facility (mark_resident nf) (fst s)) (\<lambda>popdict1.
           bind_run (for_each facility_staff (mark_staff nf) popdict1) (\<lambda>popdict2.
             if use_two_group_reduction then
               (case create_reduced_contacts_with_group_types popdict2 facility facility_staff
                       ''LTCF'' average_LTCF_degree (snd s) of
                  (popdict3, Raised e) \<Rightarrow> Raised e
                | (popdict3, NoDraws) \<Rightarrow> NoDraws
                | (popdict3, Done tp') \<Rightarrow> Done (popdict3, tp'))
             else
               bind_run (for_each facility (facility_clique facility facility_staff) popdict2)
                 (\<lambda>popdict3.
               bind_run (for_each facility_staff (facility_clique facility facility_staff) popdict3)
                 (\<lambda>popdict4. Done (popdict4, snd s))))))"

text \<open>Lines 171-175, the body of the loop over the households.\<close>

definition household_member :: "nat \<Rightarrow> nat list \<Rightarrow> nat \<Rightarrow> popdict \<Rightarrow> popdict run" where
  "household_member nh household uid =
     update_person (\<lambda>p. (set_contacts ''H'' (set household - {uid}) p)\<lparr>hhid := Some nh\<rparr>) uid"

definition household_step :: "nat \<times> nat list \<Rightarrow> popdict \<Rightarrow> popdict run" where
  "household_step nh_household popdict =
     for_each (snd nh_household) (household_member (fst nh_household) (snd nh_household)) popdict"

text \<open>
  Lines 183-229, the body of the loop over the schools.  Lines 192-210 compute the edges
  of the school by calls into \<open>schools.py\<close>, which is not among the sources: they are the
  parameter \<open>school_contacts\<close>, applied to the students, the teachers and the non-teaching
  staff of the school.
\<close>

definition school_step ::
  "(nat list \<Rightarrow> nat list \<Rightarrow> nat list \<Rightarrow> popdict \<times> tape \<Rightarrow> (popdict \<times> tape) run)
     \<Rightarrow> nat list list \<Rightarrow> nat list list option \<Rightarrow> nat \<times> nat list \<Rightarrow> popdict \<times> tape
     \<Rightarrow> (popdict \<times> tape) run" where
  "school_step school_contacts teachers_by_uids non_teaching_staff_uids ns_students s =
     (let ns = fst ns_students; students = snd ns_students
      in if length teachers_by_uids \<le> ns then Raised IndexError
         else
           bind_run
             (case non_teaching_staff_uids of
                None \<Rightarrow> Done []
              | Some [] \<Rightarrow> Done []
              | Some (x # xs) \<Rightarrow> if length (x # xs) \<le> ns then Raised IndexError
                                 else Done ((x # xs) ! ns))
             (\<lambda>non_teaching_staff.
           bind_run (school_contacts students (teachers_by_uids ! ns) non_teaching_staff s)
             (\<lambda>s1.
           bind_run (for_each students
                       (update_person (\<lambda>p. p\<lparr>scid := Some ns, sc_student := Some 1\<rparr>)) (fst s1))
             (\<lambda>popdict2.
           bind_run (for_each (teachers_by_uids ! ns)
                       (update_person (\<lambda>p. p\<lparr>scid := Some ns, sc_teacher := Some 1\<rparr>)) popdict2)
             (\<lambda>popdict3.
           bind_run (for_each non_teaching_staff
                       (update_person (\<lambda>p. p\<lparr>scid := Some ns, sc_staff := Some 1\<rparr>)) popdict3)
             (\<lambda>popdict4. Done (popdict4, snd s1)))))))"

text \<open>
  \<open>popdict[uid]['wpid'] = nw\<close> and, when industry codes are given,
  \<open>popdict[uid]['wpindcode'] = int(workplaces_by_industry_codes[nw])\<close>.
\<close>

definition set_workplace ::
  "int list option \<Rightarrow> nat \<Rightarrow> nat set \<Rightarrow> nat \<Rightarrow> popdict \<Rightarrow> popdict run" where
  "set_workplace workplaces_by_industry_codes nw uids uid popdict =
     (case workplaces_by_industry_codes of
        None \<Rightarrow> update_person (\<lambda>p. (set_contacts ''W'' uids p)\<lparr>wpid := Some nw\<rparr>) uid popdict
      | Some codes \<Rightarrow>
          bind_run (update_person (\<lambda>p. (set_contacts ''W'' uids p)\<lparr>wpid := Some nw\<rparr>) uid popdict)
            (\<lambda>popdict1.
               if length codes \<le> nw then Raised IndexError
               else update_person (\<lambda>p. p\<lparr>wpindcode := Some (codes ! nw)\<rparr>) uid popdict1))"

text \<open>Lines 253-259, the body of the loop over the workplaces without a cap.\<close>

definition workplace_step :: "int list option \<Rightarrow> nat \<times> nat list \<Rightarrow> popdict \<Rightarrow> popdict run" where
  "workplace_step workplaces_by_industry_codes nw_workplace popdict =
     for_each (snd nw_workplace)
       (\<lambda>uid. set_workplace workplaces_by_industry_codes (fst nw_workplace)
                 (set (snd nw_workplace) - {uid}) uid)
       popdict"

text \<open>
  \<open>np.random.choice(a, size=k, replace=False)\<close>: \<open>k\<close> members of the list, each taken
  once; \<open>ValueError\<close> when the list has fewer.
\<close>

fun choice_without_replacement :: "nat \<Rightarrow> 'a list \<Rightarrow> tape \<Rightarrow> ('a list \<times> tape) run" where
  "choice_without_replacement 0 a tp = Done ([], tp)"
| "choice_without_replacement (Suc k) a tp =
     (case np_random_choice a tp of
        Raised e \<Rightarrow> Raised e
      | NoDraws \<Rightarrow> NoDraws
      | Done (x, tp1) \<Rightarrow>
         (case choice_without_replacement k (remove1 x a) tp1 of
            Raised e \<Rightarrow> Raised e
          | NoDraws \<Rightarrow> NoDraws
          | Done (xs, tp2) \<Rightarrow> Done (x # xs, tp2)))"

text \<open>
  Lines 238-246, the body of \<open>for uid in workplace\<close> under a cap: the other members of
  the workplace (\<open>list(uids)\<close> lists each once), of which \<open>max_W_size\<close> are drawn when
  there are more.  A negative \<open>size\<close> is a \<open>ValueError\<close> of numpy.
\<close>

definition trim_member ::
  "int list option \<Rightarrow> int \<Rightarrow> nat \<Rightarrow> nat list \<Rightarrow> nat \<Rightarrow> popdict \<times> tape \<Rightarrow> (popdict \<times> tape) run" where
  "trim_member workplaces_by_industry_codes max_W_size nw workplace uid s =
     (let uids = removeAll uid (remdups workplace)
      in if int (length uids) > max_W_size then
           (if max_W_size < 0 then Raised ValueError
            else bind_run (choice_without_replacement (nat max_W_size) uids (snd s))
                   (\<lambda>(sampled, tp').
                 bind_run (set_workplace workplaces_by_industry_codes nw (set sampled) uid (fst s))
                   (\<lambda>popdict'. Done (popdict', tp'))))
         else bind_run (set_workplace workplaces_by_industry_codes nw (set uids) uid (fst s))
                (\<lambda>popdict'. Done (popdict', snd s)))"

definition trim_step ::
  "int list option \<Rightarrow> int \<Rightarrow> nat \<times> nat list \<Rightarrow> popdict \<times> tape \<Rightarrow> (popdict \<times> tape) run" where
  "trim_step workplaces_by_industry_codes max_W_size nw_workplace s =
     for_each (snd nw_workplace)
       (trim_member workplaces_by_industry_codes max_W_size (fst nw_workplace) (snd nw_workplace))
       s"

text \<open>
  Lines 249-251, the body of \<open>for uid in popdict.keys()\<close>: the uid is added to the
  workplace contacts of each of its workplace contacts.  \<open>KeyError\<close> when a contact is
  not a key of \<open>popdict\<close>.
\<close>

definition pairing_step :: "nat \<Rightarrow> popdict \<Rightarrow> popdict run" where
  "pairing_step uid popdict =
     (case popdict uid of
        None \<Rightarrow> Raised KeyError
      | Some p \<Rightarrow>
         (case contacts p ''W'' of
            None \<Rightarrow> Raised KeyError
          | Some cs \<Rightarrow>
              if \<exists>c\<in>cs. (case popdict c of None \<Rightarrow> True | Some q \<Rightarrow> contacts q ''W'' = None)
              then Raised KeyError
              else Done (\<lambda>c. if c \<in> cs
                              then map_option
                                     (\<lambda>q. set_contacts ''W'' (insert uid (the (contacts q ''W''))) q)
                                     (popdict c)
                              else popdict c)))"

text \<open>
  Lines 233-259, the workplace layer.  \<open>max_contacts\<close> is \<open>None\<close> or a dictionary that
  \<open>sc.mergedicts({'W': 20}, max_contacts)\<close> completes with the cap 20.
\<close>

definition workplace_cap :: "(string \<times> int) list \<Rightarrow> int" where
  "workplace_cap max_contacts = (case map_of max_contacts ''W'' of None \<Rightarrow> 20 | Some c \<Rightarrow> c)"

definition trimmed_workplaces ::
  "int list option \<Rightarrow> int \<Rightarrow> nat list list \<Rightarrow> popdict \<times> tape \<Rightarrow> (popdict \<times> tape) run" where
  "trimmed_workplaces workplaces_by_industry_codes max_W_size workplaces_by_uids s =
     for_each (enumerate_list workplaces_by_uids)
       (trim_step workplaces_by_industry_codes max_W_size) s"

definition workplace_layer ::
  "(string \<times> int) list option \<Rightarrow> int list option \<Rightarrow> nat list \<Rightarrow> nat list list \<Rightarrow> popdict \<times> tape
     \<Rightarrow> (popdict \<times> tape) run" where
  "workplace_layer max_contacts workplaces_by_industry_codes keys workplaces_by_uids s =
     (case max_contacts of
        Some mc \<Rightarrow>
          bind_run (trimmed_workplaces workplaces_by_industry_codes (workplace_cap mc div 2)
                      workplaces_by_uids s)
            (\<lambda>s1. bind_run (for_each keys pairing_step (fst s1))
                     (\<lambda>popdict'. Done (popdict', snd s1)))
      | None \<Rightarrow>
          bind_run (for_each (enumerate_list workplaces_by_uids)
                      (workplace_step workplaces_by_industry_codes) (fst s))
            (\<lambda>popdict'. Done (popdict', snd s)))"

text \<open>
  Lines 77-262.  \<open>np.random.randint(2, size=n)\<close> takes one draw for each person.  The
  keys of \<open>popdict\<close> are the keys of \<open>age_by_uid_dic\<close> in their order.
\<close>

definition make_contacts_from_microstructure_objects ::
  "(nat list \<Rightarrow> nat list \<Rightarrow> nat list \<Rightarrow> popdict \<times> tape \<Rightarrow> (popdict \<times> tape) run)
     \<Rightarrow> (nat \<times> int) list \<Rightarrow> nat list list \<Rightarrow> nat list list \<Rightarrow> nat list list
     \<Rightarrow> nat list list option \<Rightarrow> nat list list \<Rightarrow> nat list list option \<Rightarrow> nat list list
     \<Rightarrow> bool \<Rightarrow> int \<Rightarrow> int list option \<Rightarrow> (string \<times> int) list option \<Rightarrow> tape
     \<Rightarrow> (popdict \<times> tape) run" where
  "make_contacts_from_microstructure_objects school_contacts age_by_uid_dic homes_by_uids
       schools_by_uids teachers_by_uids non_teaching_staff_uids workplaces_by_uids
       facilities_by_uids facilities_staff_uids use_two_group_reduction average_LTCF_degree
       workplaces_by_industry_codes max_contacts tp =
     (if length tp < length age_by_uid_dic then NoDraws
      else
        let sexes = map (\<lambda>r. r mod 2) (take (length age_by_uid_dic) tp);
            popdict = init_popdict (facilities_by_uids \<noteq> None) age_by_uid_dic sexes Map.empty;
            s0 = (popdict, drop (length age_by_uid_dic) tp)
        in bind_run
             (case facilities_by_uids of
                None \<Rightarrow> Done s0
              | Some facilities \<Rightarrow>
                  for_each (enumerate_list facilities)
                    (facility_step use_two_group_reduction average_LTCF_degree
                       facilities_staff_uids) s0)
             (\<lambda>s1.
           bind_run (for_each (enumerate_list homes_by_uids) household_step (fst s1))
             (\<lambda>popdict2.
           bind_run (for_each (enumerate_list schools_by_uids)
                       (school_step school_contacts teachers_by_uids non_teaching_staff_uids)
                       (popdict2, snd s1))
             (\<lambda>s3.
           workplace_layer max_contacts workplaces_by_industry_codes (map fst age_by_uid_dic)
             workplaces_by_uids s3))))"

text \<open>
  Notions used to state the properties: a layer whose contact set is present and
  empty for every person, nobody being their own contact in any layer, and the two
  assumptions on the absent school helpers that the properties of the other layers need,
  that they leave a layer as it is and that they make nobody their own contact.
\<close>

definition layer_empty :: "popdict \<Rightarrow> string \<Rightarrow> bool" where
  "layer_empty popdict k \<longleftrightarrow> (\<forall>uid p. popdict uid = Some p \<longrightarrow> contacts p k = Some {})"

definition same_layer :: "string \<Rightarrow> popdict \<Rightarrow> popdict \<Rightarrow> bool" where
  "same_layer k popdict popdict' \<longleftrightarrow>
     (\<forall>uid. map_option (\<lambda>p. contacts p k) (popdict' uid)
             = map_option (\<lambda>p. contacts p k) (popdict uid))"

definition no_self_contact :: "popdict \<Rightarrow> bool" where
  "no_self_contact popdict \<longleftrightarrow> (\<forall>uid k. uid \<notin> contact_set popdict uid k)"

definition schools_keep_layer ::
  "(nat list \<Rightarrow> nat list \<Rightarrow> nat list \<Rightarrow> popdict \<times> tape \<Rightarrow> (popdict \<times> tape) run) \<Rightarrow> string \<Rightarrow> bool" where
  "schools_keep_layer school_contacts k \<longleftrightarrow>
     (\<forall>students teachers staff s s'.
        school_contacts students teachers staff s = Done s' \<longrightarrow> same_layer k (fst s) (fst s'))"

definition schools_keep_no_self ::
  "(nat list \<Rightarrow> nat list \<Rightarrow> nat list \<Rightarrow> popdict \<times> tape \<Rightarrow> (popdict \<times> tape) run) \<Rightarrow> bool" where
  "schools_keep_no_self school_contacts \<longleftrightarrow>
     (\<forall>students teachers staff s s'.
        school_contacts students teachers staff s = Done s' \<longrightarrow> no_self_contact (fst s) \<longrightarrow>
        no_self_contact (fst s'))"

text \<open>
  A stand-in for the absent school helpers, used to run the assembly on examples: every
  member of the school gets the other members as school contacts.
\<close>

definition school_clique ::
  "nat list \<Rightarrow> nat list \<Rightarrow> nat list \<Rightarrow> popdict \<times> tape \<Rightarrow> (popdict \<times> tape) run" where
  "school_clique students teachers staff s =
     bind_run (for_each (students @ teachers @ staff)
                 (\<lambda>uid. update_person
                           (set_contacts ''S'' (set (students @ teachers @ staff) - {uid})) uid)
                 (fst s))
       (\<lambda>popdict'. Done (popdict', snd s))"

text \<open>The contact sets of the listed uids for a layer, read off the result of a run.\<close>

definition contacts_view :: "(popdict \<times> tape) run \<Rightarrow> nat list \<Rightarrow> string \<Rightarrow> (nat \<times> nat set) list run" where
  "contacts_view r uids k =
     (case r of
        Done (popdict, tp) \<Rightarrow> Done (map (\<lambda>uid. (uid, contact_set popdict uid k)) uids)
      | Raised e \<Rightarrow> Raised e
      | NoDraws \<Rightarrow> NoDraws)"

section \<open>Properties of generate_workplace_sizes\<close>

lemma draw_sizes_acc:
  "draw_sizes sb p wsb n ws tp = Done (n', ws', tp') \<Longrightarrow>
     \<exists>drawn. ws' = ws @ drawn \<and> n' = n - sum_list drawn \<and> n' \<le> 0 \<and> (0 < n \<longrightarrow> drawn \<noteq> [])
       \<and> (n \<le> 0 \<longrightarrow> drawn = [])"
proof (induction sb p wsb n ws tp rule: draw_sizes.induct)
  case (1 sb p wsb n ws tp)
  show ?case
  proof (cases "0 < n")
    case False
    with "1.prems" show ?thesis by (simp add: draw_sizes.simps)
  next
    case True
    from "1.prems" True obtain b tp1 sizes sz tp2 where
      c1: "np_random_choice_p sb p tp = Done (b, tp1)" and
      c2: "map_of wsb b = Some sizes" and
      c3: "np_random_choice sizes tp1 = Done (sz, tp2)" and
      rec: "draw_sizes sb p wsb (n - sz) (ws @ [sz]) tp2 = Done (n', ws', tp')"
      by (subst (asm) draw_sizes.simps) (auto split: run.splits option.splits)
    from "1.IH"[OF True c1 refl c2 c3 refl rec]
    obtain drawn where d: "ws' = (ws @ [sz]) @ drawn" "n' = n - sz - sum_list drawn" "n' \<le> 0"
      by blast
    show ?thesis
      apply (rule exI[of _ "sz # drawn"])
      using d True by auto
  qed
qed

lemma shuffle_from_mset:
  "shuffle_from i xs tp = Done (ys, tp') \<Longrightarrow> i < length xs \<Longrightarrow> mset ys = mset xs"
proof (induction i xs tp rule: shuffle_from.induct)
  case (3 i xs r tp)
  let ?j = "r mod Suc (Suc i)"
  have "?j < Suc (Suc i)" by simp
  then have j: "?j < length xs" using "3.prems"(2) by linarith
  have "mset ys = mset (xs[Suc i := xs ! ?j, ?j := xs ! Suc i])"
    using "3.IH"[OF refl] "3.prems" by (simp add: Let_def)
  also have "\<dots> = mset xs" using j "3.prems"(2) by (simp add: mset_swap)
  finally show ?case .
qed simp_all

lemma np_random_shuffle_mset:
  "np_random_shuffle xs tp = Done (ys, tp') \<Longrightarrow> mset ys = mset xs"
  by (cases "xs = []") (auto simp: np_random_shuffle_def dest: shuffle_from_mset)

lemma positive_indices_nonempty:
  assumes "sum_list p = 1" "\<not> list_ex (\<lambda>x. x < 0) p"
  shows "positive_indices p \<noteq> []"
proof
  assume e: "positive_indices p = []"
  have "\<forall>i<length p. p ! i = 0"
  proof (intro allI impI)
    fix i assume i: "i < length p"
    have "\<not> 0 < p ! i" using e i
      by (auto simp: positive_indices_def filter_empty_conv)
    moreover have "0 \<le> p ! i" using assms(2) i by (auto simp: list_ex_iff not_less)
    ultimately show "p ! i = 0" by simp
  qed
  then have "\<forall>x\<in>set p. x = 0" by (auto simp: in_set_conv_nth)
  then have "sum_list p = 0" by (induction p) auto
  with assms(1) show False by simp
qed

lemma positive_indices_lt:
  "positive_indices p \<noteq> [] \<Longrightarrow> positive_indices p ! (r mod length (positive_indices p)) < length p"
proof -
  assume ne: "positive_indices p \<noteq> []"
  then have "positive_indices p ! (r mod length (positive_indices p)) \<in> set (positive_indices p)"
    by (intro nth_mem) simp
  then show ?thesis by (simp add: positive_indices_def)
qed

lemma np_random_choice_p_Done:
  assumes "a \<noteq> []" "length a = length p" "\<not> list_ex (\<lambda>x. x < 0) p" "sum_list p = 1"
  shows "\<exists>x\<in>set a. np_random_choice_p a p (r # tp) = Done (x, tp)"
proof -
  have "positive_indices p \<noteq> []" using assms by (intro positive_indices_nonempty)
  from positive_indices_lt[OF this, of r] assms show ?thesis
    by (simp add: np_random_choice_p_def)
qed

lemma np_random_choice_Done:
  "a \<noteq> [] \<Longrightarrow> \<exists>x\<in>set a. np_random_choice a (r # tp) = Done (x, tp)"
  by (simp add: np_random_choice_def)

lemma draw_sizes_returns:
  assumes ok: "sb \<noteq> []" "length sb = length p" "\<not> list_ex (\<lambda>x. x < 0) p" "sum_list p = 1"
    and br: "\<forall>b\<in>set sb. \<exists>sizes. map_of wsb b = Some sizes \<and> sizes \<noteq> [] \<and> (\<forall>s\<in>set sizes. 1 \<le> s)"
  shows "2 * nat n + k \<le> length tp \<Longrightarrow>
     \<exists>n' ws' tp'. draw_sizes sb p wsb n ws tp = Done (n', ws', tp') \<and> k \<le> length tp'
        \<and> length ws' \<le> length ws + nat n"
proof (induction "nat n" arbitrary: n ws tp rule: less_induct)
  case less
  show ?case
  proof (cases "0 < n")
    case False
    then show ?thesis using less.prems by (simp add: draw_sizes.simps)
  next
    case True
    then obtain r r2 tp2 where tp: "tp = r # r2 # tp2"
      using less.prems by (cases tp; cases "tl tp") auto
    obtain b where b: "b \<in> set sb" "np_random_choice_p sb p (r # r2 # tp2) = Done (b, r2 # tp2)"
      using np_random_choice_p_Done[OF ok] by blast
    obtain sizes where s: "map_of wsb b = Some sizes" "sizes \<noteq> []" "\<forall>s\<in>set sizes. 1 \<le> s"
      using br b(1) by blast
    obtain sz where sz: "sz \<in> set sizes" "np_random_choice sizes (r2 # tp2) = Done (sz, tp2)"
      using np_random_choice_Done[OF s(2)] by blast
    have pos: "1 \<le> sz" using s(3) sz(1) by blast
    have lt: "nat (n - sz) < nat n" using pos True by simp
    have len: "2 * nat (n - sz) + k \<le> length tp2" using less.prems tp pos True by (simp add: nat_diff_distrib)
    from less.hyps[OF lt len, of "ws @ [sz]"] obtain n' ws' tp' where
      r: "draw_sizes sb p wsb (n - sz) (ws @ [sz]) tp2 = Done (n', ws', tp')" "k \<le> length tp'"
         "length ws' \<le> length (ws @ [sz]) + nat (n - sz)" by blast
    have "draw_sizes sb p wsb n ws tp = Done (n', ws', tp')"
      using True tp b(2) s(1) sz(2) r(1) by (subst draw_sizes.simps) simp
    moreover have "length ws' \<le> length ws + nat n"
    proof -
      have "length (ws @ [sz]) = length ws + 1" by simp
      with r(3) lt show ?thesis by linarith
    qed
    ultimately show ?thesis using r(2) by blast
  qed
qed

lemma shuffle_from_returns:
  "i \<le> length tp \<Longrightarrow> \<exists>ys tp'. shuffle_from i xs tp = Done (ys, tp')"
proof (induction i xs tp rule: shuffle_from.induct)
  case (3 i xs r tp)
  then show ?case by (simp add: Let_def)
qed simp_all

lemma np_random_shuffle_returns:
  "length xs \<le> length tp + 1 \<Longrightarrow> \<exists>ys tp'. np_random_shuffle xs tp = Done (ys, tp')"
  unfolding np_random_shuffle_def by (rule shuffle_from_returns) simp

lemma those_map_Some:
  "\<forall>k\<in>set ks. f k \<noteq> None \<Longrightarrow> those (map f ks) = Some (map (the \<circ> f) ks)"
  by (induction ks) auto

lemma map_of_norm_dic:
  "map_of (norm_dic dic) k = map_option (\<lambda>v. if sum_list (map snd dic) = 0 then v else v / sum_list (map snd dic)) (map_of dic k)"
  by (cases "map_of dic k") (auto simp: norm_dic_def Let_def map_of_map)

lemma map_of_keys:
  "distinct (map fst dic) \<Longrightarrow> map (\<lambda>x. the (map_of dic (fst x))) dic = map snd dic"
proof (induction dic)
  case (Cons a dic)
  have "map (\<lambda>x. the (map_of (a # dic) (fst x))) dic = map (\<lambda>x. the (map_of dic (fst x))) dic"
    using Cons.prems by (intro map_cong refl) (cases a, force)
  with Cons show ?case by (cases a) simp
qed simp


lemma fst_norm_dic: "map fst (norm_dic dic) = map fst dic"
  by (auto simp: norm_dic_def Let_def)

lemma sum_list_divide: "sum_list (map (\<lambda>x. f x / c) xs) = sum_list (map f xs) / (c::real)"
  by (induction xs) (auto simp: add_divide_distrib)

lemma sum_norm_dic:
  "sum_list (map snd dic) \<noteq> 0 \<Longrightarrow> sum_list (map snd (norm_dic dic)) = 1"
proof -
  assume nz: "sum_list (map snd dic) \<noteq> 0"
  have "map snd (map (\<lambda>(k, v). (k, v / sum_list (map snd dic))) dic)
          = map (\<lambda>x. snd x / sum_list (map snd dic)) dic"
    by (auto simp: case_prod_unfold)
  then show ?thesis using nz by (simp add: norm_dic_def Let_def sum_list_divide del: map_map)
qed

lemma sum_list_mset_cong:
  "mset xs = mset ys \<Longrightarrow> sum_list (map f xs) = sum_list (map (f::'a \<Rightarrow> real) ys)"
proof -
  assume "mset xs = mset ys"
  then have "mset (map f xs) = mset (map f ys)" by simp
  then show ?thesis by (metis sum_mset_sum_list)
qed

lemma prob_of_tables:
  assumes ok: "size_tables_ok distr brackets"
  defines "sb \<equiv> sort (map fst brackets)"
  shows "\<exists>prob. lookup_all (norm_dic distr) sb = Some prob \<and> length sb = length prob \<and> sb \<noteq> []
           \<and> \<not> list_ex (\<lambda>x. x < 0) prob \<and> sum_list prob = 1"
proof -
  let ?d = "norm_dic distr"
  let ?f = "the \<circ> map_of ?d"
  have keys: "set sb = set (map fst distr)" using ok by (simp add: sb_def size_tables_ok_def)
  have tot: "0 < sum_list (map snd distr)" using ok by (simp add: size_tables_ok_def)
  have "\<forall>k\<in>set sb. map_of ?d k \<noteq> None"
  proof
    fix k assume "k \<in> set sb"
    then have "k \<in> set (map fst ?d)" using keys by (simp only: fst_norm_dic)
    then have "k \<in> fst ` set ?d" by simp
    then show "map_of ?d k \<noteq> None" by (simp add: map_of_eq_None_iff)
  qed
  then have look: "lookup_all ?d sb = Some (map ?f sb)"
    unfolding lookup_all_def by (rule those_map_Some)
  have "mset (map fst brackets) = mset (map fst distr)"
    using ok unfolding size_tables_ok_def by (metis set_eq_iff_mset_eq_distinct)
  then have ms: "mset sb = mset (map fst distr)" by (simp add: sb_def)
  have "sum_list (map ?f sb) = sum_list (map ?f (map fst distr))"
    using ms by (rule sum_list_mset_cong)
  also have "\<dots> = sum_list (map ?f (map fst ?d))"
    by (simp only: fst_norm_dic)
  also have "\<dots> = sum_list (map (\<lambda>x. the (map_of ?d (fst x))) ?d)"
    by (simp add: comp_def)
  also have "\<dots> = sum_list (map snd ?d)"
    using ok by (subst map_of_keys) (simp_all add: fst_norm_dic size_tables_ok_def)
  also have "\<dots> = 1" using tot by (intro sum_norm_dic) simp
  finally have sum: "sum_list (map ?f sb) = 1" .
  have nonneg: "\<not> list_ex (\<lambda>x. x < 0) (map ?f sb)"
  proof -
    have "0 \<le> ?f k" if "k \<in> set sb" for k
    proof -
      from that keys have "k \<in> fst ` set distr" by simp
      then obtain v where v: "map_of distr k = Some v"
        by (cases "map_of distr k") (simp_all add: map_of_eq_None_iff)
      then have "(k, v) \<in> set distr" by (rule map_of_SomeD)
      then have "v \<in> set (map snd distr)" by force
      then have "0 \<le> v" using ok unfolding size_tables_ok_def by blast
      then show ?thesis using v tot by (simp add: map_of_norm_dic)
    qed
    then show ?thesis by (auto simp: list_ex_iff not_less)
  qed
  have "length sb = length brackets" by (simp add: sb_def)
  moreover have "brackets \<noteq> []" using ok by (simp add: size_tables_ok_def)
  ultimately have "sb \<noteq> []" by (metis length_0_conv)
  with look sum nonneg show ?thesis by auto
qed


lemma correct_last_sum:
  "ws \<noteq> [] \<Longrightarrow> sum_list (correct_last n ws) = sum_list ws + n"
proof -
  assume "ws \<noteq> []"
  then obtain xs x where ws: "ws = xs @ [x]" by (metis rev_exhaust)
  show ?thesis by (simp add: correct_last_def ws)
qed

lemma correct_last_butlast:
  "ws \<noteq> [] \<Longrightarrow> correct_last n ws = butlast ws @ [last ws + n]"
proof -
  assume "ws \<noteq> []"
  then obtain xs x where ws: "ws = xs @ [x]" by (metis rev_exhaust)
  show ?thesis by (simp add: correct_last_def ws)
qed

lemma sum_list_mset_int:
  "mset xs = mset ys \<Longrightarrow> sum_list xs = sum_list (ys::int list)"
  by (metis sum_mset_sum_list)

text \<open>
  Claim C3.  For a head count \<open>N \<ge> 0\<close> (the total of \<open>workers_by_age_to_assign_count\<close>):
  whenever \<open>generate_workplace_sizes\<close> returns, the sizes sum to exactly \<open>N\<close>, and they are
  a rearrangement of the sizes the loop appended, of which only the last one is changed
  (by the overshoot) when the running total passed \<open>N\<close>; \<open>N = 0\<close> gives the empty list
  without a draw; and, for well-formed tables (the same distinct brackets in both tables,
  non-negative weights of positive total, every bracket a non-empty range of sizes
  \<open>\<ge> 1\<close>), the function does return once \<open>3 * N\<close> draws are available.
\<close>

theorem generate_workplace_sizes_sum:
  assumes N: "0 \<le> sum_list (map snd counts)"
  shows "(generate_workplace_sizes distr brackets counts tp = Done (sizes, tp') \<longrightarrow>
            sum_list sizes = sum_list (map snd counts) \<and>
            (\<exists>prob drawn nw tp1.
               draw_sizes (sort (map fst brackets)) prob brackets (sum_list (map snd counts)) [] tp
                 = Done (nw, drawn, tp1) \<and>
               mset sizes = mset (if sum_list (map snd counts) < sum_list drawn
                                  then butlast drawn @ [last drawn - (sum_list drawn - sum_list (map snd counts))]
                                  else drawn)))
       \<and> (sum_list (map snd counts) = 0 \<and> set (map fst brackets) \<subseteq> set (map fst distr) \<longrightarrow>
            generate_workplace_sizes distr brackets counts tp = Done ([], tp))
       \<and> (size_tables_ok distr brackets \<and> 3 * nat (sum_list (map snd counts)) \<le> length tp \<longrightarrow>
            (\<exists>sizes tp'. generate_workplace_sizes distr brackets counts tp = Done (sizes, tp')))"
proof (intro conjI impI)
  let ?N = "sum_list (map snd counts)"
  let ?sb = "sort (map fst brackets)"
  assume run: "generate_workplace_sizes distr brackets counts tp = Done (sizes, tp')"
  then obtain prob nw drawn tp1 where
    look: "lookup_all (norm_dic distr) ?sb = Some prob" and
    loop: "draw_sizes ?sb prob brackets ?N [] tp = Done (nw, drawn, tp1)" and
    fin: "(if nw < 0 then (if drawn = [] then Raised IndexError
              else np_random_shuffle (correct_last nw drawn) tp1)
           else np_random_shuffle drawn tp1) = Done (sizes, tp')"
    by (auto simp: generate_workplace_sizes_def Let_def split: option.splits run.splits)
  from draw_sizes_acc[OF loop] have nw: "nw = ?N - sum_list drawn" "nw \<le> 0"
    and ne: "0 < ?N \<longrightarrow> drawn \<noteq> []" and e: "?N \<le> 0 \<longrightarrow> drawn = []" by auto
  have ms: "mset sizes = mset (if nw < 0 then correct_last nw drawn else drawn)"
    using fin by (auto split: if_splits dest: np_random_shuffle_mset)
  have dne: "nw < 0 \<Longrightarrow> drawn \<noteq> []" using nw(1) N by auto
  have "sum_list sizes = sum_list (if nw < 0 then correct_last nw drawn else drawn)"
    using ms by (rule sum_list_mset_int)
  also have "\<dots> = ?N" using nw dne by (auto simp: correct_last_sum)
  finally show "sum_list sizes = ?N" .
  have "mset sizes = mset (if ?N < sum_list drawn
            then butlast drawn @ [last drawn - (sum_list drawn - ?N)] else drawn)"
    using ms nw(1) dne by (auto simp: correct_last_butlast)
  with loop show "\<exists>prob drawn nw tp1.
       draw_sizes ?sb prob brackets ?N [] tp = Done (nw, drawn, tp1) \<and>
       mset sizes = mset (if ?N < sum_list drawn
                          then butlast drawn @ [last drawn - (sum_list drawn - ?N)] else drawn)"
    by blast
next
  assume a: "sum_list (map snd counts) = 0 \<and> set (map fst brackets) \<subseteq> set (map fst distr)"
  have "\<forall>k\<in>set (sort (map fst brackets)). map_of (norm_dic distr) k \<noteq> None"
  proof
    fix k assume "k \<in> set (sort (map fst brackets))"
    then have "k \<in> set (map fst distr)" using a by auto
    then have "k \<in> set (map fst (norm_dic distr))" by (simp only: fst_norm_dic)
    then have "k \<in> fst ` set (norm_dic distr)" by simp
    then show "map_of (norm_dic distr) k \<noteq> None" by (simp add: map_of_eq_None_iff)
  qed
  then have "lookup_all (norm_dic distr) (sort (map fst brackets))
       = Some (map (the \<circ> map_of (norm_dic distr)) (sort (map fst brackets)))"
    unfolding lookup_all_def by (rule those_map_Some)
  then show "generate_workplace_sizes distr brackets counts tp = Done ([], tp)"
    using a by (simp add: generate_workplace_sizes_def draw_sizes.simps np_random_shuffle_def)
next
  let ?N = "sum_list (map snd counts)"
  let ?sb = "sort (map fst brackets)"
  assume a: "size_tables_ok distr brackets \<and> 3 * nat ?N \<le> length tp"
  then obtain prob where p: "lookup_all (norm_dic distr) ?sb = Some prob" "length ?sb = length prob"
      "?sb \<noteq> []" "\<not> list_ex (\<lambda>x. x < 0) prob" "sum_list prob = 1"
    using prob_of_tables by blast
  have br: "\<forall>b\<in>set ?sb. \<exists>sizes. map_of brackets b = Some sizes \<and> sizes \<noteq> [] \<and> (\<forall>s\<in>set sizes. 1 \<le> s)"
  proof
    fix b assume "b \<in> set ?sb"
    then have "b \<in> fst ` set brackets" by simp
    then obtain sizes where s: "map_of brackets b = Some sizes"
      by (cases "map_of brackets b") (simp_all add: map_of_eq_None_iff)
    then have "(b, sizes) \<in> set brackets" by (rule map_of_SomeD)
    then have "sizes \<in> set (map snd brackets)" by force
    then have "sizes \<noteq> [] \<and> (\<forall>s\<in>set sizes. 1 \<le> s)"
      using a unfolding size_tables_ok_def by blast
    with s show "\<exists>sizes. map_of brackets b = Some sizes \<and> sizes \<noteq> [] \<and> (\<forall>s\<in>set sizes. 1 \<le> s)"
      by blast
  qed
  have "2 * nat ?N + nat ?N \<le> length tp" using a by simp
  from draw_sizes_returns[OF p(3) p(2) p(4) p(5) br this, of "[]"]
  obtain nw drawn tp1 where
    loop: "draw_sizes ?sb prob brackets ?N [] tp = Done (nw, drawn, tp1)"
    and len: "nat ?N \<le> length tp1" "length drawn \<le> nat ?N" by auto
  have l1: "length drawn \<le> length tp1 + 1" using len by simp
  have l2: "length (correct_last nw drawn) \<le> length tp1 + 1" using len by (simp add: correct_last_def)
  from draw_sizes_acc[OF loop] N have dne: "nw < 0 \<longrightarrow> drawn \<noteq> []" by auto
  obtain sizes tp' where "(if nw < 0 then (if drawn = [] then Raised IndexError
              else np_random_shuffle (correct_last nw drawn) tp1)
           else np_random_shuffle drawn tp1) = Done (sizes, tp')"
    using np_random_shuffle_returns[OF l1] np_random_shuffle_returns[OF l2] dne
    by (cases "nw < 0") auto
  then show "\<exists>sizes tp'. generate_workplace_sizes distr brackets counts tp = Done (sizes, tp')"
    using p(1) loop by (simp add: generate_workplace_sizes_def)
qed


theorem generate_workplace_sizes_sum_witness:
  "0 \<le> sum_list (map snd [(20::nat, 2::int), (21, 3)]) \<and>
   generate_workplace_sizes [(0, 3), (1, 1)] [(0, [1, 2]), (1, [3, 4, 5])] [(20, 2), (21, 3)]
       [0, 1, 1, 2, 0, 0, 0, 0, 0, 0, 0, 0, 0, 0, 0]
     = Done ([3, 2], [0, 0, 0, 0, 0, 0, 0, 0, 0, 0]) \<and>
   sum_list [3, 2] = sum_list (map snd [(20::nat, 2::int), (21, 3)]) \<and>
   size_tables_ok [(0, 3), (1, 1)] [(0, [1, 2]), (1, [3, 4, 5])] \<and>
   generate_workplace_sizes [(0, 3), (1, 1)] [(0, [1, 2]), (1, [3, 4, 5])] [(20, 0), (21, 0)] []
     = Done ([], [])"
proof -
  have N: "0 \<le> sum_list (map snd [(20::nat, 2::int), (21, 3)])" by simp
  have run: "generate_workplace_sizes [(0, 3), (1, 1)] [(0, [1, 2]), (1, [3, 4, 5])]
       [(20, 2), (21, 3)] [0, 1, 1, 2, 0, 0, 0, 0, 0, 0, 0, 0, 0, 0, 0]
     = Done ([3, 2], [0, 0, 0, 0, 0, 0, 0, 0, 0, 0])"
    by code_simp
  have ok: "size_tables_ok [(0, 3), (1, 1)] [(0, [1, 2]), (1, [3, 4, 5])]"
    by code_simp
  have N0: "0 \<le> sum_list (map snd [(20::nat, 0::int), (21, 0)])" by simp
  have empty: "generate_workplace_sizes [(0, 3), (1, 1)] [(0, [1, 2]), (1, [3, 4, 5])]
       [(20, 0), (21, 0)] [] = Done ([], [])"
    using generate_workplace_sizes_sum [OF N0, of "[(0, 3), (1, 1)]" "[(0, [1, 2]), (1, [3, 4, 5])]" "[]"]
    by simp
  from generate_workplace_sizes_sum [OF N, of "[(0, 3), (1, 1)]" "[(0, [1, 2]), (1, [3, 4, 5])]"
      "[0, 1, 1, 2, 0, 0, 0, 0, 0, 0, 0, 0, 0, 0, 0]" "[3, 2]" "[0, 0, 0, 0, 0, 0, 0, 0, 0, 0]"] run
  have "sum_list [3, 2] = sum_list (map snd [(20::nat, 2::int), (21, 3)])" by blast
  with N run ok empty show ?thesis by blast
qed

section \<open>Properties of assign_rest_of_workers\<close>

lemma update_pool_mset:
  "distinct (map fst al) \<Longrightarrow> map_of al k = Some (u # us) \<Longrightarrow>
     mset (concat (map snd al)) = add_mset u (mset (concat (map snd (AList.update k us al))))"
proof (induction al)
  case (Cons a al)
  obtain k' v where a: "a = (k', v)" by (cases a)
  show ?case
  proof (cases "k' = k")
    case True
    with Cons.prems a show ?thesis by simp
  next
    case False
    with Cons a show ?thesis by simp
  qed
qed simp

lemma take_worker_Done:
  assumes "take_worker ai st = Done (uid, st')" "dicts_ok st"
  shows "mset (pooled_uids st) = add_mset uid (mset (pooled_uids st'))"
    and "dicts_ok st'"
    and "workers_by_age_to_assign_count st' = workers_by_age_to_assign_count st"
    and "contact_matrix_W st' = contact_matrix_W st"
  using assms
  by (auto simp: take_worker_def dicts_ok_def pooled_uids_def distinct_update update_pool_mset
           split: option.splits list.splits)

lemma decrement_count_Done:
  assumes "decrement_count ai st = Done st'"
  shows "pooled_uids st' = pooled_uids st" "contact_matrix_W st' = contact_matrix_W st"
    "potential_worker_uids st' = potential_worker_uids st"
    "\<exists>c. map_of (workers_by_age_to_assign_count st) ai = Some c \<and>
         workers_by_age_to_assign_count st'
           = AList.update ai (c - 1) (workers_by_age_to_assign_count st)"
    "dicts_ok st \<Longrightarrow> dicts_ok st'"
  using assms
  by (auto simp: decrement_count_def pooled_uids_def dicts_ok_def distinct_update
           split: option.splits)

lemma place_in_order_Done:
  "place_in_order ai n st nw nwu = Done (st', nw', nwu') \<Longrightarrow> dicts_ok st \<Longrightarrow>
     \<exists>placed. nwu' = nwu @ placed \<and> length placed = n \<and>
        workers_by_age_to_assign_count st' = workers_by_age_to_assign_count st \<and>
        dicts_ok st' \<and> mset (pooled_uids st) = mset placed + mset (pooled_uids st')"
proof (induction n arbitrary: st nw nwu)
  case 0
  then show ?case by simp
next
  case (Suc n)
  from Suc.prems(1) obtain uid st1 where
    t: "take_worker ai st = Done (uid, st1)" and
    r: "place_in_order ai n st1 (nw @ [ai]) (nwu @ [uid]) = Done (st', nw', nwu')"
    by (auto split: run.splits)
  note tw = take_worker_Done[OF t Suc.prems(2)]
  from Suc.IH[OF r tw(2)] obtain placed where
    p: "nwu' = (nwu @ [uid]) @ placed" "length placed = n"
       "workers_by_age_to_assign_count st' = workers_by_age_to_assign_count st1"
       "dicts_ok st'" "mset (pooled_uids st1) = mset placed + mset (pooled_uids st')"
    by blast
  show ?case
    apply (rule exI[of _ "uid # placed"])
    using p tw by simp
qed

lemma grab_everyone_Done:
  "grab_everyone ages st nw nwu = Done (st', nw', nwu') \<Longrightarrow> dicts_ok st \<Longrightarrow>
   distinct ages \<Longrightarrow>
     \<exists>placed. nwu' = nwu @ placed \<and>
        length placed = sum_list (map (\<lambda>a. nat (the (map_of (workers_by_age_to_assign_count st) a))) ages) \<and>
        dicts_ok st' \<and> mset (pooled_uids st) = mset placed + mset (pooled_uids st')"
proof (induction ages arbitrary: st nw nwu)
  case Nil
  then show ?case by simp
next
  case (Cons ai ages)
  let ?cnts = workers_by_age_to_assign_count
  from Cons.prems(1) obtain c st1 nw1 nwu1 where
    c: "map_of (?cnts st) ai = Some c" and
    p: "place_in_order ai (nat c) st nw nwu = Done (st1, nw1, nwu1)" and
    r: "grab_everyone ages (st1\<lparr>workers_by_age_to_assign_count := AList.update ai 0 (?cnts st1)\<rparr>)
          nw1 nwu1 = Done (st', nw', nwu')"
    by (auto split: option.splits run.splits)
  from place_in_order_Done[OF p Cons.prems(2)] obtain pl1 where
    p1: "nwu1 = nwu @ pl1" "length pl1 = nat c" "?cnts st1 = ?cnts st"
        "dicts_ok st1" "mset (pooled_uids st) = mset pl1 + mset (pooled_uids st1)"
    by blast
  let ?st2 = "st1\<lparr>workers_by_age_to_assign_count := AList.update ai 0 (?cnts st1)\<rparr>"
  have d2: "dicts_ok ?st2" using p1(4) by (simp add: dicts_ok_def distinct_update)
  have pu: "pooled_uids ?st2 = pooled_uids st1" by (simp add: pooled_uids_def)
  from Cons.IH[OF r d2] Cons.prems(3) obtain pl2 where
    p2: "nwu' = nwu1 @ pl2"
        "length pl2 = sum_list (map (\<lambda>a. nat (the (map_of (?cnts ?st2) a))) ages)"
        "dicts_ok st'" "mset (pooled_uids ?st2) = mset pl2 + mset (pooled_uids st')"
    by auto
  have "map (\<lambda>a. nat (the (map_of (?cnts ?st2) a))) ages = map (\<lambda>a. nat (the (map_of (?cnts st) a))) ages"
    using Cons.prems(3) p1(3) by (intro map_cong refl) (auto simp: update_conv')
  then have l2: "length pl2 = sum_list (map (\<lambda>a. nat (the (map_of (?cnts st) a))) ages)"
    using p2(2) by (simp only:)
  show ?case
    apply (rule exI[of _ "pl1 @ pl2"])
    using p1 p2 l2 c pu by simp
qed

lemma place_by_mixing_Done:
  assumes "place_by_mixing ab b_prob bi0 left st nw nwu tp1 = Done (bi, st2, nw', nwu', tp3)"
  shows "\<exists>tp2 ages a_prob k uid st1.
           pick_bracket ab st b_prob bi0 left tp1 = Done (bi, tp2) \<and>
           map_of ab bi = Some ages \<and>
           lookup_all (workers_by_age_to_assign_count st) ages = Some a_prob \<and>
           fast_choice (map real_of_int a_prob) tp2 = Done (k, tp3) \<and> k < length ages \<and>
           take_worker (ages ! k) st = Done (uid, st1) \<and>
           decrement_count (ages ! k) st1 = Done st2 \<and>
           nw' = nw @ [ages ! k] \<and> nwu' = nwu @ [uid]"
  using assms unfolding place_by_mixing_def
  by (auto split: run.splits option.splits if_splits prod.splits)

lemma turn_off_if_empty_Done:
  assumes "turn_off_if_empty ab bindex b_prob bi st = Done (b_prob', st')"
  shows "(b_prob' = b_prob \<and> st' = st) \<or>
         (bi < ncols (contact_matrix_W st) \<and>
          b_prob' = row_prob (zero_column bi (contact_matrix_W st)) bindex \<and>
          st' = st\<lparr>contact_matrix_W := zero_column bi (contact_matrix_W st)\<rparr>)"
  using assms unfolding turn_off_if_empty_def
  by (auto simp: Let_def split: option.splits if_splits)

lemma fill_slot_cases:
  assumes "fill_slot ab bindex b_prob st nw nwu tp = Done (b_prob', st', nw', nwu', tp')"
  shows "\<exists>bi0 tp1 left bi st2.
           fast_choice b_prob tp = Done (bi0, tp1) \<and>
           workers_left_in_bracket ab st bi0 = Some left \<and>
           ((sum_list b_prob \<noteq> 0 \<and>
               place_by_mixing ab b_prob bi0 left st nw nwu tp1 = Done (bi, st2, nw', nwu', tp'))
            \<or> (sum_list b_prob = 0 \<and> bi = bi0 \<and> st2 = st \<and> nw' = nw \<and> nwu' = nwu \<and> tp' = tp1)) \<and>
           turn_off_if_empty ab bindex b_prob bi st2 = Done (b_prob', st')"
  using assms unfolding fill_slot_def
  by (auto split: run.splits option.splits if_splits prod.splits)

lemma fill_slot_Done:
  assumes "fill_slot ab bindex b_prob st nw nwu tp = Done (b_prob', st', nw', nwu', tp')"
    and "dicts_ok st"
  shows "\<exists>placed. nwu' = nwu @ placed \<and> length placed \<le> 1 \<and> dicts_ok st' \<and>
        mset (pooled_uids st) = mset placed + mset (pooled_uids st')"
proof -
  from fill_slot_cases[OF assms(1)] obtain bi0 tp1 left bi st2 where
    inner: "place_by_mixing ab b_prob bi0 left st nw nwu tp1 = Done (bi, st2, nw', nwu', tp')
            \<or> (st2 = st \<and> nwu' = nwu)"
    and post: "turn_off_if_empty ab bindex b_prob bi st2 = Done (b_prob', st')"
    by blast
  from inner have "\<exists>placed. nwu' = nwu @ placed \<and> length placed \<le> 1 \<and> dicts_ok st2 \<and>
        mset (pooled_uids st) = mset placed + mset (pooled_uids st2)"
  proof
    assume "place_by_mixing ab b_prob bi0 left st nw nwu tp1 = Done (bi, st2, nw', nwu', tp')"
    from place_by_mixing_Done[OF this] obtain ai uid st1 where
      t: "take_worker ai st = Done (uid, st1)"
      and d: "decrement_count ai st1 = Done st2" and n: "nwu' = nwu @ [uid]" by blast
    note tw = take_worker_Done[OF t assms(2)]
    note dc = decrement_count_Done[OF d]
    show ?thesis
      apply (rule exI[of _ "[uid]"])
      using tw dc n by simp
  next
    assume "st2 = st \<and> nwu' = nwu"
    then show ?thesis using assms(2) by (intro exI[of _ "[]"]) simp
  qed
  moreover have "pooled_uids st' = pooled_uids st2 \<and> (dicts_ok st2 \<longrightarrow> dicts_ok st')"
    using turn_off_if_empty_Done[OF post] by (auto simp: pooled_uids_def dicts_ok_def)
  ultimately show ?thesis by auto
qed

lemma fill_slots_Done:
  "fill_slots ab bindex n b_prob st nw nwu tp = Done (st', nw', nwu', tp') \<Longrightarrow> dicts_ok st \<Longrightarrow>
     \<exists>placed. nwu' = nwu @ placed \<and> length placed \<le> n \<and> dicts_ok st' \<and>
        mset (pooled_uids st) = mset placed + mset (pooled_uids st')"
proof (induction n arbitrary: b_prob st nw nwu tp)
  case 0
  then show ?case by simp
next
  case (Suc n)
  from Suc.prems(1) obtain b1 st1 nw1 nwu1 tp1 where
    f: "fill_slot ab bindex b_prob st nw nwu tp = Done (b1, st1, nw1, nwu1, tp1)" and
    r: "fill_slots ab bindex n b1 st1 nw1 nwu1 tp1 = Done (st', nw', nwu', tp')"
    by (auto split: run.splits)
  from fill_slot_Done[OF f Suc.prems(2)] obtain pl1 where
    p1: "nwu1 = nwu @ pl1" "length pl1 \<le> 1" "dicts_ok st1"
        "mset (pooled_uids st) = mset pl1 + mset (pooled_uids st1)"
    by blast
  from Suc.IH[OF r p1(3)] obtain pl2 where
    p2: "nwu' = nwu1 @ pl2" "length pl2 \<le> n" "dicts_ok st'"
        "mset (pooled_uids st1) = mset pl2 + mset (pooled_uids st')"
    by blast
  show ?case
    apply (rule exI[of _ "pl1 @ pl2"])
    using p1 p2 by simp
qed

lemma those_Some_nth:
  "those xs = Some vs \<Longrightarrow> length vs = length xs \<and> (\<forall>i<length xs. xs ! i = Some (vs ! i))"
proof (induction xs arbitrary: vs)
  case (Cons x xs)
  then obtain v vs' where "x = Some v" "those xs = Some vs'" "vs = v # vs'"
    by (auto split: option.splits)
  with Cons.IH[of vs'] show ?case by (auto simp: nth_Cons split: nat.splits)
qed simp

lemma lookup_all_Some:
  "lookup_all d ks = Some vs \<Longrightarrow>
     length vs = length ks \<and> (\<forall>i<length ks. map_of d (ks ! i) = Some (vs ! i))"
  unfolding lookup_all_def by (drule those_Some_nth) simp

lemma np_random_choice_p_pos:
  assumes "np_random_choice_p a p tp = Done (x, tp')"
  shows "\<exists>i<length a. x = a ! i \<and> 0 < p ! i"
proof -
  from assms have ok: "length a = length p" "\<not> list_ex (\<lambda>x. x < 0) p" "sum_list p = 1"
    and x: "\<exists>r. x = a ! (positive_indices p ! (r mod length (positive_indices p)))"
    by (auto simp: np_random_choice_p_def split: if_splits list.splits)
  have ne: "positive_indices p \<noteq> []" using ok by (intro positive_indices_nonempty)
  from x obtain r where r: "x = a ! (positive_indices p ! (r mod length (positive_indices p)))" by blast
  let ?i = "positive_indices p ! (r mod length (positive_indices p))"
  have "?i \<in> set (positive_indices p)" using ne by (intro nth_mem) simp
  then have "?i < length p \<and> 0 < p ! ?i" by (simp add: positive_indices_def)
  with r ok(1) show ?thesis by auto
qed

lemma sum_list_nonneg_int: "\<forall>x\<in>set xs. (0::int) \<le> x \<Longrightarrow> 0 \<le> sum_list xs"
  by (induction xs) auto

lemma sum_nat_int: "\<forall>x\<in>set xs. (0::int) \<le> x \<Longrightarrow> int (sum_list (map nat xs)) = sum_list xs"
  by (induction xs) auto

lemma set_snd_update:
  "set (map snd (AList.update k v al)) \<subseteq> insert v (set (map snd al))"
  by (induction al) auto

lemma anchor_count_positive:
  assumes look: "lookup_all counts ks = Some a_count"
    and ch: "np_random_choice_p ks (map (\<lambda>c. real_of_int c / real_of_int (sum_list a_count)) a_count) tp
               = Done (aindex, tp1)"
    and nn: "\<forall>c\<in>set (map snd counts). 0 \<le> c"
  shows "\<exists>c. map_of counts aindex = Some c \<and> 0 < c"
proof -
  from lookup_all_Some[OF look] have len: "length a_count = length ks"
    and nth: "\<forall>i<length ks. map_of counts (ks ! i) = Some (a_count ! i)" by auto
  from np_random_choice_p_pos[OF ch] obtain i where i: "i < length ks" "aindex = ks ! i"
    "0 < map (\<lambda>c. real_of_int c / real_of_int (sum_list a_count)) a_count ! i" by blast
  have c: "map_of counts aindex = Some (a_count ! i)" using nth i by simp
  have "\<forall>x\<in>set a_count. 0 \<le> x"
  proof
    fix x assume "x \<in> set a_count"
    then obtain j where j: "j < length a_count" "x = a_count ! j" by (auto simp: in_set_conv_nth)
    then have "map_of counts (ks ! j) = Some x" using nth len by simp
    then have "(ks ! j, x) \<in> set counts" by (rule map_of_SomeD)
    then have "x \<in> set (map snd counts)" by force
    with nn show "0 \<le> x" by blast
  qed
  then have tot: "0 \<le> sum_list a_count" by (rule sum_list_nonneg_int)
  have "0 < real_of_int (a_count ! i) / real_of_int (sum_list a_count)"
    using i(3) i(1) len by simp
  then have "0 < a_count ! i" using tot
    by (cases "sum_list a_count = 0") (auto simp: zero_less_divide_iff)
  with c show ?thesis by blast
qed

lemma sum_counts_keys:
  "distinct (map fst c) \<Longrightarrow>
     sum_list (map (\<lambda>a. nat (the (map_of c a))) (map fst c)) = sum_list (map nat (map snd c))"
proof -
  assume d: "distinct (map fst c)"
  have "\<forall>x\<in>set c. the (map_of c (fst x)) = snd x"
  proof
    fix x assume "x \<in> set c"
    then have "(fst x, snd x) \<in> set c" by simp
    then have "map_of c (fst x) = Some (snd x)" using d by (rule map_of_is_SomeI[rotated])
    then show "the (map_of c (fst x)) = snd x" by simp
  qed
  then have "map (\<lambda>x. nat (the (map_of c (fst x)))) c = map (\<lambda>x. nat (snd x)) c"
    by (intro map_cong refl) simp
  then have "sum_list (map (\<lambda>x. nat (the (map_of c (fst x)))) c) = sum_list (map (\<lambda>x. nat (snd x)) c)"
    by (simp only:)
  then show ?thesis by (simp add: comp_def)
qed

lemma one_workplace_Done:
  assumes "one_workplace ab abd sz st tp = Done (nw, nwu, st', tp')"
  shows "\<exists>a_count aindex tp1 uid st1 st2.
     lookup_all (workers_by_age_to_assign_count st) (sort (map fst (workers_by_age_to_assign_count st)))
        = Some a_count \<and>
     np_random_choice_p (sort (map fst (workers_by_age_to_assign_count st)))
        (map (\<lambda>c. real_of_int c / real_of_int (sum_list a_count)) a_count) tp = Done (aindex, tp1) \<and>
     take_worker aindex st = Done (uid, st1) \<and>
     decrement_count aindex st1 = Done st2 \<and>
     ((sum_list (map snd (workers_by_age_to_assign_count st2)) \<le> clamp_size sz st2 \<and>
         grab_everyone (map fst (workers_by_age_to_assign_count st2)) st2 [aindex] [uid]
           = Done (st', nw, nwu))
      \<or> (\<exists>bindex b_prob.
            fill_slots ab bindex (nat (clamp_size sz st2 - 1)) b_prob st2 [aindex] [uid] tp1
              = Done (st', nw, nwu, tp')))"
  using assms unfolding one_workplace_def clamp_size_def
  by (auto simp: Let_def split: run.splits option.splits if_splits prod.splits)

lemma clamp_size_le: "clamp_size sz st2 \<le> sz"
  by (simp add: clamp_size_def Let_def)

lemma one_workplace_moves:
  assumes run: "one_workplace ab abd sz st tp = Done (nw, nwu, st', tp')"
    and ok: "dicts_ok st"
  shows "dicts_ok st' \<and> mset (pooled_uids st) = mset nwu + mset (pooled_uids st')"
proof -
  let ?cnts = workers_by_age_to_assign_count
  from one_workplace_Done[OF run] obtain aindex tp1 uid st1 st2 where
    t: "take_worker aindex st = Done (uid, st1)" and
    d: "decrement_count aindex st1 = Done st2" and
    rest: "grab_everyone (map fst (?cnts st2)) st2 [aindex] [uid] = Done (st', nw, nwu)
           \<or> (\<exists>bindex b_prob n. fill_slots ab bindex n b_prob st2 [aindex] [uid] tp1
              = Done (st', nw, nwu, tp'))"
    by blast
  note tw = take_worker_Done[OF t ok]
  note dc = decrement_count_Done[OF d]
  have ok2: "dicts_ok st2" using tw(2) dc(5) by simp
  have m2: "mset (pooled_uids st) = add_mset uid (mset (pooled_uids st2))"
    using tw(1) dc(1) by simp
  from rest obtain placed where
    "nwu = [uid] @ placed \<and> dicts_ok st' \<and> mset (pooled_uids st2) = mset placed + mset (pooled_uids st')"
  proof
    assume g: "grab_everyone (map fst (?cnts st2)) st2 [aindex] [uid] = Done (st', nw, nwu)"
    have "distinct (map fst (?cnts st2))" using ok2 by (simp add: dicts_ok_def)
    from grab_everyone_Done[OF g ok2 this] show ?thesis using that by blast
  next
    assume "\<exists>bindex b_prob n. fill_slots ab bindex n b_prob st2 [aindex] [uid] tp1
              = Done (st', nw, nwu, tp')"
    then obtain bindex b_prob n where
      f: "fill_slots ab bindex n b_prob st2 [aindex] [uid] tp1 = Done (st', nw, nwu, tp')" by blast
    from fill_slots_Done[OF f ok2] show ?thesis using that by blast
  qed
  with m2 show ?thesis by simp
qed

lemma one_workplace_size:
  assumes run: "one_workplace ab abd sz st tp = Done (nw, nwu, st', tp')"
    and ok: "dicts_ok st" and sz: "0 \<le> sz"
    and nn: "\<forall>c\<in>set (map snd (workers_by_age_to_assign_count st)). 0 \<le> c"
  shows "int (length nwu) \<le> sz + 1"
proof -
  let ?cnts = workers_by_age_to_assign_count
  from one_workplace_Done[OF run] obtain a_count aindex tp1 uid st1 st2 where
    look: "lookup_all (?cnts st) (sort (map fst (?cnts st))) = Some a_count" and
    ch: "np_random_choice_p (sort (map fst (?cnts st)))
        (map (\<lambda>c. real_of_int c / real_of_int (sum_list a_count)) a_count) tp = Done (aindex, tp1)" and
    t: "take_worker aindex st = Done (uid, st1)" and
    d: "decrement_count aindex st1 = Done st2" and
    rest: "(sum_list (map snd (?cnts st2)) \<le> clamp_size sz st2 \<and>
             grab_everyone (map fst (?cnts st2)) st2 [aindex] [uid] = Done (st', nw, nwu))
           \<or> (\<exists>bindex b_prob. fill_slots ab bindex (nat (clamp_size sz st2 - 1)) b_prob st2
                 [aindex] [uid] tp1 = Done (st', nw, nwu, tp'))"
    by blast
  note tw = take_worker_Done[OF t ok]
  note dc = decrement_count_Done[OF d]
  have ok2: "dicts_ok st2" using tw(2) dc(5) by simp
  from anchor_count_positive[OF look ch nn] obtain c where
    c: "map_of (?cnts st) aindex = Some c" "0 < c" by blast
  have c2: "?cnts st2 = AList.update aindex (c - 1) (?cnts st)" using dc(4) tw(3) c(1) by auto
  have nn2: "\<forall>x\<in>set (map snd (?cnts st2)). 0 \<le> x"
  proof
    fix x assume "x \<in> set (map snd (?cnts st2))"
    then have "x \<in> insert (c - 1) (set (map snd (?cnts st)))"
      using set_snd_update[of aindex "c - 1" "?cnts st"] c2 by auto
    with nn c(2) show "0 \<le> x" by auto
  qed
  from rest show ?thesis
  proof
    assume a: "sum_list (map snd (?cnts st2)) \<le> clamp_size sz st2 \<and>
             grab_everyone (map fst (?cnts st2)) st2 [aindex] [uid] = Done (st', nw, nwu)"
    have dk: "distinct (map fst (?cnts st2))" using ok2 by (simp add: dicts_ok_def)
    from grab_everyone_Done[OF conjunct2[OF a] ok2 dk] obtain placed where
      p: "nwu = [uid] @ placed"
         "length placed = sum_list (map (\<lambda>a. nat (the (map_of (?cnts st2) a))) (map fst (?cnts st2)))"
      by blast
    have "int (length placed) = sum_list (map snd (?cnts st2))"
      using p(2) sum_counts_keys[OF dk] sum_nat_int[OF nn2] by simp
    also have "\<dots> \<le> sz" using a clamp_size_le[of sz st2] by linarith
    finally show ?thesis using p(1) by simp
  next
    assume "\<exists>bindex b_prob. fill_slots ab bindex (nat (clamp_size sz st2 - 1)) b_prob st2
                 [aindex] [uid] tp1 = Done (st', nw, nwu, tp')"
    then obtain bindex b_prob where
      f: "fill_slots ab bindex (nat (clamp_size sz st2 - 1)) b_prob st2 [aindex] [uid] tp1
            = Done (st', nw, nwu, tp')" by blast
    from fill_slots_Done[OF f ok2] obtain placed where
      p: "nwu = [uid] @ placed" "length placed \<le> nat (clamp_size sz st2 - 1)" by blast
    have "int (length placed) \<le> sz" using p(2) clamp_size_le[of sz st2] sz by linarith
    then show ?thesis using p(1) by simp
  qed
qed

lemma counts_nonneg_iff:
  "counts_nonneg st \<longleftrightarrow> (\<forall>c\<in>set (map snd (workers_by_age_to_assign_count st)). 0 \<le> c)"
  by (simp add: counts_nonneg_def list_all_iff)

lemma counts_nonneg_update:
  "counts_nonneg st \<Longrightarrow> 0 \<le> v \<Longrightarrow>
   workers_by_age_to_assign_count st' = AList.update k v (workers_by_age_to_assign_count st) \<Longrightarrow>
   counts_nonneg st'"
proof -
  assume a: "counts_nonneg st" "0 \<le> v"
    "workers_by_age_to_assign_count st' = AList.update k v (workers_by_age_to_assign_count st)"
  have "\<forall>c\<in>insert v (set (map snd (workers_by_age_to_assign_count st))). 0 \<le> c"
    using a(1,2) by (simp add: counts_nonneg_iff)
  then have "\<forall>c\<in>set (map snd (AList.update k v (workers_by_age_to_assign_count st))). 0 \<le> c"
    using set_snd_update[of k v "workers_by_age_to_assign_count st"] by blast
  then show ?thesis using a(3) by (simp only: counts_nonneg_iff)
qed

lemma grab_everyone_nonneg:
  "grab_everyone ages st nw nwu = Done (st', nw', nwu') \<Longrightarrow> dicts_ok st \<Longrightarrow>
     counts_nonneg st \<Longrightarrow> counts_nonneg st'"
proof (induction ages arbitrary: st nw nwu)
  case Nil
  then show ?case by simp
next
  case (Cons ai ages)
  let ?cnts = workers_by_age_to_assign_count
  from Cons.prems(1) obtain c st1 nw1 nwu1 where
    p: "place_in_order ai (nat c) st nw nwu = Done (st1, nw1, nwu1)" and
    r: "grab_everyone ages (st1\<lparr>workers_by_age_to_assign_count := AList.update ai 0 (?cnts st1)\<rparr>)
          nw1 nwu1 = Done (st', nw', nwu')"
    by (auto split: option.splits run.splits)
  from place_in_order_Done[OF p Cons.prems(2)] have
    p1: "?cnts st1 = ?cnts st" "dicts_ok st1" by auto
  let ?st2 = "st1\<lparr>workers_by_age_to_assign_count := AList.update ai 0 (?cnts st1)\<rparr>"
  have d2: "dicts_ok ?st2" using p1(2) by (simp add: dicts_ok_def distinct_update)
  have "counts_nonneg st1" using Cons.prems(3) p1(1) by (simp add: counts_nonneg_def)
  then have "counts_nonneg ?st2" by (rule counts_nonneg_update) simp_all
  from Cons.IH[OF r d2 this] show ?case .
qed

lemma pick_bracket_Done:
  "pick_bracket ab st lbp bi left tp = Done (bi', tp') \<Longrightarrow>
   workers_left_in_bracket ab st bi = Some left \<Longrightarrow>
     \<exists>left'. workers_left_in_bracket ab st bi' = Some left' \<and> sum_list left' \<noteq> 0"
proof (induction ab st lbp bi left tp rule: pick_bracket.induct)
  case (1 ab st lbp bi left tp)
  show ?case
  proof (cases "sum_list left = 0")
    case False
    with "1.prems" show ?thesis by (simp add: pick_bracket.simps)
  next
    case True
    from "1.prems"(1) True obtain bi1 tp1 left1 where
      a: "\<not> length lbp \<le> bi" "fast_choice (lbp[bi := 0]) tp = Done (bi1, tp1)"
         "workers_left_in_bracket ab st bi1 = Some left1"
         "pick_bracket ab st (lbp[bi := 0]) bi1 left1 tp1 = Done (bi', tp')"
      by (subst (asm) pick_bracket.simps) (auto split: if_splits run.splits option.splits)
    from "1.IH"[OF True a(1) a(2) refl a(3) a(4) a(3)] show ?thesis .
  qed
qed

lemma counts_of_nonempty_pools_subset:
  "counts_of_nonempty_pools pools counts ages = Some left \<Longrightarrow>
   lookup_all counts ages = Some a_prob \<Longrightarrow> set left \<subseteq> set a_prob"
proof (induction ages arbitrary: left a_prob)
  case Nil
  then show ?case by simp
next
  case (Cons a ages)
  from Cons.prems(2) obtain c vs where
    l: "map_of counts a = Some c" "lookup_all counts ages = Some vs" "a_prob = c # vs"
    by (auto simp: lookup_all_def split: option.splits)
  from Cons.prems(1) l(1) have
    "(\<exists>left'. counts_of_nonempty_pools pools counts ages = Some left' \<and> left = c # left')
     \<or> counts_of_nonempty_pools pools counts ages = Some left"
    by (auto split: option.splits if_splits)
  then show ?case using Cons.IH[OF _ l(2)] l(3) by auto
qed

lemma fast_choice_pos:
  assumes "fast_choice w tp = Done (k, tp')" "\<exists>x\<in>set w. 0 < x"
  shows "k < length w \<and> 0 < w ! k"
proof -
  from assms(2) obtain i where i: "i < length w" "0 < w ! i" by (auto simp: in_set_conv_nth)
  then have "i \<in> set (positive_indices w)" by (simp add: positive_indices_def)
  then have ne: "positive_indices w \<noteq> []" by auto
  from assms(1) ne obtain r where
    k: "k = positive_indices w ! (r mod length (positive_indices w))"
    by (auto simp: fast_choice_def split: list.splits)
  have "k \<in> set (positive_indices w)" unfolding k using ne by (intro nth_mem) simp
  then show ?thesis by (simp add: positive_indices_def)
qed

lemma fill_slot_nonneg:
  assumes run: "fill_slot ab bindex b_prob st nw nwu tp = Done (b_prob', st', nw', nwu', tp')"
    and nn: "counts_nonneg st"
  shows "counts_nonneg st'"
proof -
  let ?cnts = workers_by_age_to_assign_count
  from fill_slot_cases[OF run] obtain bi0 tp1 left bi st2 where
    wl: "workers_left_in_bracket ab st bi0 = Some left" and
    inner: "place_by_mixing ab b_prob bi0 left st nw nwu tp1 = Done (bi, st2, nw', nwu', tp')
            \<or> st2 = st"
    and post0: "turn_off_if_empty ab bindex b_prob bi st2 = Done (b_prob', st')"
    by blast
  have post: "?cnts st' = ?cnts st2" using turn_off_if_empty_Done[OF post0] by auto
  from inner have "counts_nonneg st2"
  proof
    assume "st2 = st" with nn show ?thesis by simp
  next
    assume "place_by_mixing ab b_prob bi0 left st nw nwu tp1 = Done (bi, st2, nw', nwu', tp')"
    from place_by_mixing_Done[OF this] obtain tp2 ages a_prob k uid st1 where
      pb: "pick_bracket ab st b_prob bi0 left tp1 = Done (bi, tp2)" and
      ag: "map_of ab bi = Some ages" and la: "lookup_all (?cnts st) ages = Some a_prob" and
      fc: "fast_choice (map real_of_int a_prob) tp2 = Done (k, tp')" and kl: "k < length ages" and
      t: "take_worker (ages ! k) st = Done (uid, st1)" and
      d: "decrement_count (ages ! k) st1 = Done st2" by blast
    from pick_bracket_Done[OF pb wl] obtain left' where
      l': "workers_left_in_bracket ab st bi = Some left'" "sum_list left' \<noteq> 0" by blast
    from l'(1) ag have cn: "counts_of_nonempty_pools (potential_worker_uids_by_age st) (?cnts st) ages = Some left'"
      by (simp add: workers_left_in_bracket_def)
    from counts_of_nonempty_pools_subset[OF cn la] have sub: "set left' \<subseteq> set a_prob" .
    from lookup_all_Some[OF la] have len: "length a_prob = length ages"
      and nth: "\<forall>i<length ages. map_of (?cnts st) (ages ! i) = Some (a_prob ! i)" by auto
    have ap: "\<forall>x\<in>set a_prob. 0 \<le> x"
    proof
      fix x assume "x \<in> set a_prob"
      then obtain j where j: "j < length a_prob" "x = a_prob ! j" by (auto simp: in_set_conv_nth)
      then have "map_of (?cnts st) (ages ! j) = Some x" using nth len by simp
      then have "(ages ! j, x) \<in> set (?cnts st)" by (rule map_of_SomeD)
      then have "x \<in> set (map snd (?cnts st))" by force
      with nn show "0 \<le> x" by (auto simp: counts_nonneg_iff)
    qed
    have "\<exists>x\<in>set left'. x \<noteq> 0" using l'(2) by (induction left') auto
    then obtain x where x: "x \<in> set a_prob" "0 < x" using sub ap by force
    then have "\<exists>y\<in>set (map real_of_int a_prob). 0 < y" by force
    from fast_choice_pos[OF fc this] have kp: "0 < a_prob ! k" using len kl by simp
    have ck: "map_of (?cnts st) (ages ! k) = Some (a_prob ! k)" using nth kl by simp
    have c1: "?cnts st1 = ?cnts st" using t
      by (auto simp: take_worker_def split: option.splits list.splits)
    from decrement_count_Done(4)[OF d] c1 ck
    have "?cnts st2 = AList.update (ages ! k) (a_prob ! k - 1) (?cnts st)" by auto
    with nn kp show ?thesis by (intro counts_nonneg_update[of st "a_prob ! k - 1" st2]) simp_all
  qed
  with post show ?thesis by (simp add: counts_nonneg_def)
qed

lemma fill_slots_nonneg:
  "fill_slots ab bindex n b_prob st nw nwu tp = Done (st', nw', nwu', tp') \<Longrightarrow>
   counts_nonneg st \<Longrightarrow> counts_nonneg st'"
proof (induction n arbitrary: b_prob st nw nwu tp)
  case 0
  then show ?case by simp
next
  case (Suc n)
  from Suc.prems(1) obtain b1 st1 nw1 nwu1 tp1 where
    f: "fill_slot ab bindex b_prob st nw nwu tp = Done (b1, st1, nw1, nwu1, tp1)" and
    r: "fill_slots ab bindex n b1 st1 nw1 nwu1 tp1 = Done (st', nw', nwu', tp')"
    by (auto split: run.splits)
  from Suc.IH[OF r fill_slot_nonneg[OF f Suc.prems(2)]] show ?case .
qed

lemma one_workplace_nonneg:
  assumes run: "one_workplace ab abd sz st tp = Done (nw, nwu, st', tp')"
    and ok: "dicts_ok st" and nn: "counts_nonneg st"
  shows "counts_nonneg st'"
proof -
  let ?cnts = workers_by_age_to_assign_count
  from one_workplace_Done[OF run] obtain a_count aindex tp1 uid st1 st2 where
    look: "lookup_all (?cnts st) (sort (map fst (?cnts st))) = Some a_count" and
    ch: "np_random_choice_p (sort (map fst (?cnts st)))
        (map (\<lambda>c. real_of_int c / real_of_int (sum_list a_count)) a_count) tp = Done (aindex, tp1)" and
    t: "take_worker aindex st = Done (uid, st1)" and
    d: "decrement_count aindex st1 = Done st2" and
    rest: "grab_everyone (map fst (?cnts st2)) st2 [aindex] [uid] = Done (st', nw, nwu)
           \<or> (\<exists>bindex b_prob n. fill_slots ab bindex n b_prob st2 [aindex] [uid] tp1
                 = Done (st', nw, nwu, tp'))"
    by blast
  note tw = take_worker_Done[OF t ok]
  note dc = decrement_count_Done[OF d]
  have ok2: "dicts_ok st2" using tw(2) dc(5) by simp
  from anchor_count_positive[OF look ch] nn obtain c where
    c: "map_of (?cnts st) aindex = Some c" "0 < c" by (auto simp: counts_nonneg_iff)
  have c2: "?cnts st2 = AList.update aindex (c - 1) (?cnts st)" using dc(4) tw(3) c(1) by auto
  have nn2: "counts_nonneg st2" using nn c(2) c2 by (intro counts_nonneg_update[of st "c - 1" st2]) simp_all
  from rest show ?thesis
    using grab_everyone_nonneg[OF _ ok2 nn2] fill_slots_nonneg[OF _ nn2] by blast
qed

lemma length_concat_take: "length (concat (take k xs)) \<le> length (concat xs)"
proof -
  have "concat xs = concat (take k xs) @ concat (drop k xs)"
    by (metis append_take_drop_id concat_append)
  then show ?thesis by (metis le_add1 length_append)
qed

lemma workplaces_loop_moves:
  "workplaces_loop ab abd sizes st sw swu tp = Done (sw', swu', st', tp') \<Longrightarrow> dicts_ok st \<Longrightarrow>
     \<exists>new. swu' = swu @ new \<and> dicts_ok st' \<and>
        mset (pooled_uids st) = mset (concat new) + mset (pooled_uids st')"
proof (induction sizes arbitrary: st sw swu tp)
  case Nil
  then show ?case by simp
next
  case (Cons sz sizes)
  from Cons.prems(1) have
    "(sw' = sw \<and> swu' = swu \<and> st' = st) \<or>
     (\<exists>nw nwu st1 tp1. one_workplace ab abd sz st tp = Done (nw, nwu, st1, tp1) \<and>
        workplaces_loop ab abd sizes st1 (sw @ [nw]) (swu @ [nwu]) tp1 = Done (sw', swu', st', tp'))"
    by (auto split: if_splits run.splits)
  then show ?case
  proof
    assume "sw' = sw \<and> swu' = swu \<and> st' = st"
    then show ?thesis using Cons.prems by (intro exI[of _ "[]"]) simp
  next
    assume "\<exists>nw nwu st1 tp1. one_workplace ab abd sz st tp = Done (nw, nwu, st1, tp1) \<and>
        workplaces_loop ab abd sizes st1 (sw @ [nw]) (swu @ [nwu]) tp1 = Done (sw', swu', st', tp')"
    then obtain nw nwu st1 tp1 where
      o: "one_workplace ab abd sz st tp = Done (nw, nwu, st1, tp1)" and
      r: "workplaces_loop ab abd sizes st1 (sw @ [nw]) (swu @ [nwu]) tp1 = Done (sw', swu', st', tp')"
      by blast
    from one_workplace_moves[OF o Cons.prems(2)] have
      m1: "dicts_ok st1" "mset (pooled_uids st) = mset nwu + mset (pooled_uids st1)" by auto
    from Cons.IH[OF r m1(1)] obtain new where
      n: "swu' = (swu @ [nwu]) @ new" "dicts_ok st'"
         "mset (pooled_uids st1) = mset (concat new) + mset (pooled_uids st')"
      by blast
    show ?thesis
      apply (intro exI[of _ "nwu # new"])
      using n m1 by simp
  qed
qed

text \<open>
  Claim C2, as amended.  Whenever \<open>assign_rest_of_workers\<close> returns, for pools that hold
  every uid once: no uid occurs twice in the returned workplaces (neither in two
  workplaces nor twice in one), every placed uid comes from the input pools, and the
  placed uids together with the uids left in the returned pools are exactly the input
  pools.  That every pooled uid is placed does not hold: the function returns the pools of
  those left over.
\<close>

theorem assign_rest_of_workers_no_duplicates:
  assumes run: "assign_rest_of_workers workplace_sizes potential pools counts age_brackets
                   age_by_brackets_dic contact_matrix tp
                  = Done (syn_workplaces, syn_workplace_uids, st', tp')"
    and dp: "distinct (map fst pools)" and dc: "distinct (map fst counts)"
    and du: "distinct (concat (map snd pools))"
  shows "distinct (concat syn_workplace_uids) \<and>
         set (concat syn_workplace_uids) \<inter> set (pooled_uids st') = {} \<and>
         set (concat syn_workplace_uids) \<union> set (pooled_uids st') = set (concat (map snd pools)) \<and>
         mset (concat syn_workplace_uids) + mset (pooled_uids st') = mset (concat (map snd pools))"
proof -
  from run obtain m' where
    l: "workplaces_loop age_brackets age_by_brackets_dic workplace_sizes
          \<lparr>potential_worker_uids = potential, potential_worker_uids_by_age = pools,
           workers_by_age_to_assign_count = counts, contact_matrix_W = m'\<rparr> [] [] tp
        = Done (syn_workplaces, syn_workplace_uids, st', tp')"
    by (auto simp: assign_rest_of_workers_def split: run.splits)
  let ?st = "\<lparr>potential_worker_uids = potential, potential_worker_uids_by_age = pools,
           workers_by_age_to_assign_count = counts, contact_matrix_W = m'\<rparr>"
  have ok: "dicts_ok ?st" using dp dc by (simp add: dicts_ok_def)
  from workplaces_loop_moves[OF l ok] have
    m: "mset (concat (map snd pools)) = mset (concat syn_workplace_uids @ pooled_uids st')"
    by (auto simp: pooled_uids_def)
  then have d: "distinct (concat syn_workplace_uids @ pooled_uids st')"
    using du by (metis mset_eq_imp_distinct_iff)
  have s: "set (concat (map snd pools)) = set (concat syn_workplace_uids @ pooled_uids st')"
    using m by (rule mset_eq_setD)
  from d s m show ?thesis by auto
qed

theorem assign_rest_of_workers_no_duplicates_witness:
  "distinct (map fst [(20::nat, [1::nat, 2]), (30, [3, 4, 5, 6, 7])]) \<and>
   distinct (map fst [(20::nat, 2::int), (30, 4)]) \<and>
   distinct (concat (map snd [(20::nat, [1::nat, 2]), (30, [3, 4, 5, 6, 7])])) \<and>
   assign_rest_of_workers [3, 3] [(1, 20), (2, 20), (3, 30), (4, 30), (5, 30), (6, 30), (7, 30)]
       [(20, [1, 2]), (30, [3, 4, 5, 6, 7])] [(20, 2), (30, 4)] [(0, [20]), (1, [30])]
       [(20, 0), (30, 1)] [[1, 1], [1, 1]] [0, 1, 0, 1, 0, 1, 0, 0, 0, 0]
     = Done ([[20, 30, 30], [30, 20, 30]], [[1, 3, 4], [5, 2, 6]],
         \<lparr>potential_worker_uids = [(7, 30)],
          potential_worker_uids_by_age = [(20, []), (30, [7])],
          workers_by_age_to_assign_count = [(20, 0), (30, 0)],
          contact_matrix_W = [[1, 1], [1, 1]]\<rparr>, [0, 0, 0, 0]) \<and>
   distinct (concat [[1::nat, 3, 4], [5, 2, 6]]) \<and>
   set (concat [[1::nat, 3, 4], [5, 2, 6]]) \<inter> set [7] = {}"
proof -
  have run: "assign_rest_of_workers [3, 3] [(1, 20), (2, 20), (3, 30), (4, 30), (5, 30), (6, 30), (7, 30)]
       [(20, [1, 2]), (30, [3, 4, 5, 6, 7])] [(20, 2), (30, 4)] [(0, [20]), (1, [30])]
       [(20, 0), (30, 1)] [[1, 1], [1, 1]] [0, 1, 0, 1, 0, 1, 0, 0, 0, 0]
     = Done ([[20, 30, 30], [30, 20, 30]], [[1, 3, 4], [5, 2, 6]],
         \<lparr>potential_worker_uids = [(7, 30)],
          potential_worker_uids_by_age = [(20, []), (30, [7])],
          workers_by_age_to_assign_count = [(20, 0), (30, 0)],
          contact_matrix_W = [[1, 1], [1, 1]]\<rparr>, [0, 0, 0, 0])"
    by code_simp
  have h: "distinct (map fst [(20::nat, [1::nat, 2]), (30, [3, 4, 5, 6, 7])])"
       "distinct (map fst [(20::nat, 2::int), (30, 4)])"
       "distinct (concat (map snd [(20::nat, [1::nat, 2]), (30, [3, 4, 5, 6, 7])]))"
    by simp_all
  from assign_rest_of_workers_no_duplicates [OF run h]
  have "distinct (concat [[1::nat, 3, 4], [5, 2, 6]]) \<and>
        set (concat [[1::nat, 3, 4], [5, 2, 6]]) \<inter> set [7] = {}"
    by (simp add: pooled_uids_def)
  with run h show ?thesis by blast
qed

text \<open>
  Claim C2 as stated fails: two pooled workers of age 20, both counted as workers to
  assign, and one workplace of the size 2.  After the anchor the size is clamped to
  \<open>len(potential_worker_uids) - 1 = 0\<close> (line 183), nobody else is placed, and uid 2 is in
  no workplace.
\<close>

theorem assign_rest_of_workers_leaves_pooled_uid:
  "assign_rest_of_workers [2] [(1, 20), (2, 20)] [(20, [1, 2])] [(20, 2)] [(0, [20])] [(20, 0)]
       [[1]] [0]
     = Done ([[20]], [[1]],
         \<lparr>potential_worker_uids = [(2, 20)], potential_worker_uids_by_age = [(20, [2])],
          workers_by_age_to_assign_count = [(20, 1)], contact_matrix_W = [[1]]\<rparr>, []) \<and>
   2 \<in> set (concat (map snd [(20::nat, [1::nat, 2])])) \<and>
   2 \<notin> set (concat [[1::nat]])"
  by code_simp

lemma place_in_order_counts:
  "place_in_order ai n st nw nwu = Done (st', nw', nwu') \<Longrightarrow>
     workers_by_age_to_assign_count st' = workers_by_age_to_assign_count st"
proof (induction n arbitrary: st nw nwu)
  case 0
  then show ?case by simp
next
  case (Suc n)
  from Suc.prems obtain uid st1 where
    t: "take_worker ai st = Done (uid, st1)" and
    r: "place_in_order ai n st1 (nw @ [ai]) (nwu @ [uid]) = Done (st', nw', nwu')"
    by (auto split: run.splits)
  from t have "workers_by_age_to_assign_count st1 = workers_by_age_to_assign_count st"
    by (auto simp: take_worker_def split: option.splits list.splits)
  with Suc.IH[OF r] show ?case by simp
qed

lemma map_fst_update_existing:
  "map_of al k = Some v \<Longrightarrow> map fst (AList.update k v' al) = map fst al"
  by (induction al) (auto split: if_splits)

lemma grab_everyone_zero:
  "grab_everyone ages st nw nwu = Done (st', nw', nwu') \<Longrightarrow>
   \<forall>a\<in>Z. map_of (workers_by_age_to_assign_count st) a = Some 0 \<Longrightarrow>
     (\<forall>a\<in>Z \<union> set ages. map_of (workers_by_age_to_assign_count st') a = Some 0) \<and>
     map fst (workers_by_age_to_assign_count st') = map fst (workers_by_age_to_assign_count st)"
proof (induction ages arbitrary: st nw nwu Z)
  case Nil
  then show ?case by simp
next
  case (Cons ai ages)
  let ?cnts = workers_by_age_to_assign_count
  from Cons.prems(1) obtain c st1 nw1 nwu1 where
    c: "map_of (?cnts st) ai = Some c" and
    p: "place_in_order ai (nat c) st nw nwu = Done (st1, nw1, nwu1)" and
    r: "grab_everyone ages (st1\<lparr>workers_by_age_to_assign_count := AList.update ai 0 (?cnts st1)\<rparr>)
          nw1 nwu1 = Done (st', nw', nwu')"
    by (auto split: option.splits run.splits)
  have c1: "?cnts st1 = ?cnts st" by (rule place_in_order_counts[OF p])
  let ?st2 = "st1\<lparr>workers_by_age_to_assign_count := AList.update ai 0 (?cnts st1)\<rparr>"
  have z: "\<forall>a\<in>insert ai Z. map_of (?cnts ?st2) a = Some 0"
    using Cons.prems(2) c1 by (auto simp: update_conv')
  have k: "map fst (?cnts ?st2) = map fst (?cnts st)"
    using c c1 by (simp add: map_fst_update_existing)
  from Cons.IH[OF r z] k show ?case by auto
qed

lemma all_zero_counts:
  assumes "\<forall>a\<in>set (map fst c). map_of c a = Some (0::int)" and "distinct (map fst c)"
  shows "\<forall>x\<in>set (map snd c). x = 0"
proof
  fix x assume "x \<in> set (map snd c)"
  then obtain a where ax: "(a, x) \<in> set c" by auto
  then have "a \<in> set (map fst c)" by force
  with assms have m: "map_of c a = Some 0" by blast
  from assms(2) ax have "map_of c a = Some x" by (rule map_of_is_SomeI)
  with m show "x = 0" by simp
qed

lemma norm_dic_zero:
  assumes "\<forall>x\<in>set (map snd c). x = (0::int)"
  shows "sum_list (map snd (norm_dic (map (\<lambda>(a, c). (a, real_of_int c)) c))) = 0"
proof -
  have z: "sum_list (map snd (map (\<lambda>(a, c). (a, real_of_int c)) c)) = 0"
    using assms by (induction c) auto
  then show ?thesis by (simp add: norm_dic_def)
qed


lemma workplaces_loop_drained:
  assumes "\<forall>x\<in>set (map snd (workers_by_age_to_assign_count st)). x = 0"
  shows "workplaces_loop ab abd sizes st sw swu tp = Done (sw, swu, st, tp)"
proof (cases sizes)
  case Nil
  then show ?thesis by simp
next
  case (Cons sz rest)
  then show ?thesis using norm_dic_zero[OF assms] by simp
qed

lemma one_workplace_target:
  assumes run: "one_workplace ab abd sz st tp = Done (nw, nwu, st', tp')"
    and ok: "dicts_ok st"
  shows "int (length nwu) \<le> max 1 sz \<or>
         (\<forall>x\<in>set (map snd (workers_by_age_to_assign_count st')). x = 0)"
proof -
  let ?cnts = workers_by_age_to_assign_count
  from one_workplace_Done[OF run] obtain aindex tp1 uid st1 st2 where
    t: "take_worker aindex st = Done (uid, st1)" and
    d: "decrement_count aindex st1 = Done st2" and
    rest: "(sum_list (map snd (?cnts st2)) \<le> clamp_size sz st2 \<and>
             grab_everyone (map fst (?cnts st2)) st2 [aindex] [uid] = Done (st', nw, nwu))
           \<or> (\<exists>bindex b_prob. fill_slots ab bindex (nat (clamp_size sz st2 - 1)) b_prob st2
                 [aindex] [uid] tp1 = Done (st', nw, nwu, tp'))"
    by blast
  note tw = take_worker_Done[OF t ok]
  note dc = decrement_count_Done[OF d]
  have ok2: "dicts_ok st2" using tw(2) dc(5) by simp
  from rest show ?thesis
  proof
    assume a: "sum_list (map snd (?cnts st2)) \<le> clamp_size sz st2 \<and>
             grab_everyone (map fst (?cnts st2)) st2 [aindex] [uid] = Done (st', nw, nwu)"
    have dk: "distinct (map fst (?cnts st2))" using ok2 by (simp add: dicts_ok_def)
    have "\<forall>a\<in>{}. map_of (?cnts st2) a = Some 0" by simp
    from grab_everyone_zero[OF conjunct2[OF a] this] have
      z: "\<forall>a\<in>set (map fst (?cnts st2)). map_of (?cnts st') a = Some 0" and
      k: "map fst (?cnts st') = map fst (?cnts st2)" by auto
    have "\<forall>x\<in>set (map snd (?cnts st')). x = 0"
      using z k dk by (intro all_zero_counts) simp_all
    then show ?thesis by blast
  next
    assume "\<exists>bindex b_prob. fill_slots ab bindex (nat (clamp_size sz st2 - 1)) b_prob st2
                 [aindex] [uid] tp1 = Done (st', nw, nwu, tp')"
    then obtain bindex b_prob where
      f: "fill_slots ab bindex (nat (clamp_size sz st2 - 1)) b_prob st2 [aindex] [uid] tp1
            = Done (st', nw, nwu, tp')" by blast
    from fill_slots_Done[OF f ok2] obtain placed where
      p: "nwu = [uid] @ placed" "length placed \<le> nat (clamp_size sz st2 - 1)" by blast
    have "int (length placed) \<le> max 1 sz - 1" using p(2) clamp_size_le[of sz st2] by linarith
    then show ?thesis using p(1) by simp
  qed
qed

lemma workplaces_loop_target:
  "workplaces_loop ab abd sizes st sw swu tp = Done (sw', swu', st', tp') \<Longrightarrow> dicts_ok st \<Longrightarrow>
     \<exists>new. swu' = swu @ new \<and> length new \<le> length sizes \<and>
        (\<forall>n. Suc n < length new \<longrightarrow> int (length (new ! n)) \<le> max 1 (sizes ! n)) \<and>
        (counts_nonneg st \<longrightarrow>
           (\<forall>n<length new. 0 \<le> sizes ! n \<longrightarrow> int (length (new ! n)) \<le> sizes ! n + 1)) \<and>
        dicts_ok st' \<and>
        mset (pooled_uids st) = mset (concat new) + mset (pooled_uids st')"
proof (induction sizes arbitrary: st sw swu tp)
  case Nil
  then show ?case by simp
next
  case (Cons sz sizes)
  from Cons.prems(1) have
    "(sw' = sw \<and> swu' = swu \<and> st' = st) \<or>
     (\<exists>nw nwu st1 tp1. one_workplace ab abd sz st tp = Done (nw, nwu, st1, tp1) \<and>
        workplaces_loop ab abd sizes st1 (sw @ [nw]) (swu @ [nwu]) tp1 = Done (sw', swu', st', tp'))"
    by (auto split: if_splits run.splits)
  then show ?case
  proof
    assume "sw' = sw \<and> swu' = swu \<and> st' = st"
    then show ?thesis using Cons.prems by (intro exI[of _ "[]"]) simp
  next
    assume "\<exists>nw nwu st1 tp1. one_workplace ab abd sz st tp = Done (nw, nwu, st1, tp1) \<and>
        workplaces_loop ab abd sizes st1 (sw @ [nw]) (swu @ [nwu]) tp1 = Done (sw', swu', st', tp')"
    then obtain nw nwu st1 tp1 where
      o: "one_workplace ab abd sz st tp = Done (nw, nwu, st1, tp1)" and
      r: "workplaces_loop ab abd sizes st1 (sw @ [nw]) (swu @ [nwu]) tp1 = Done (sw', swu', st', tp')"
      by blast
    from one_workplace_moves[OF o Cons.prems(2)] have
      m1: "dicts_ok st1" "mset (pooled_uids st) = mset nwu + mset (pooled_uids st1)" by auto
    from Cons.IH[OF r m1(1)] obtain new where
      n: "swu' = (swu @ [nwu]) @ new" "length new \<le> length sizes"
         "\<forall>n. Suc n < length new \<longrightarrow> int (length (new ! n)) \<le> max 1 (sizes ! n)"
         "counts_nonneg st1 \<longrightarrow>
            (\<forall>n<length new. 0 \<le> sizes ! n \<longrightarrow> int (length (new ! n)) \<le> sizes ! n + 1)"
         "dicts_ok st'"
         "mset (pooled_uids st1) = mset (concat new) + mset (pooled_uids st')"
      by blast
    have first: "int (length nwu) \<le> max 1 sz" if "new \<noteq> []"
    proof (rule ccontr)
      assume "\<not> int (length nwu) \<le> max 1 sz"
      with one_workplace_target[OF o Cons.prems(2)] have
        "\<forall>x\<in>set (map snd (workers_by_age_to_assign_count st1)). x = 0" by blast
      from workplaces_loop_drained[OF this, of ab abd sizes "sw @ [nw]" "swu @ [nwu]" tp1] r
      have "swu' = swu @ [nwu]" by simp
      with n(1) that show False by simp
    qed
    have a: "\<forall>k. Suc k < length (nwu # new) \<longrightarrow>
               int (length ((nwu # new) ! k)) \<le> max 1 ((sz # sizes) ! k)"
    proof (intro allI impI)
      fix k assume k: "Suc k < length (nwu # new)"
      show "int (length ((nwu # new) ! k)) \<le> max 1 ((sz # sizes) ! k)"
      proof (cases k)
        case 0
        with k first show ?thesis by auto
      next
        case (Suc j)
        with k n(3) show ?thesis by simp
      qed
    qed
    have b: "\<forall>k<length (nwu # new). 0 \<le> (sz # sizes) ! k \<longrightarrow>
               int (length ((nwu # new) ! k)) \<le> (sz # sizes) ! k + 1" if nn: "counts_nonneg st"
    proof (intro allI impI)
      fix k assume k: "k < length (nwu # new)" and s: "0 \<le> (sz # sizes) ! k"
      have n1: "counts_nonneg st1" by (rule one_workplace_nonneg[OF o Cons.prems(2) nn])
      show "int (length ((nwu # new) ! k)) \<le> (sz # sizes) ! k + 1"
      proof (cases k)
        case 0
        then have "0 \<le> sz" using s by simp
        from one_workplace_size[OF o Cons.prems(2) this] nn 0 show ?thesis
          by (simp add: counts_nonneg_iff)
      next
        case (Suc j)
        with k s n(4) n1 show ?thesis by simp
      qed
    qed
    show ?thesis
      apply (intro exI[of _ "nwu # new"])
      using n(1,2,5,6) m1 a b by simp
  qed
qed

text \<open>
  Claim C7, as amended.  Whenever \<open>assign_rest_of_workers\<close> returns there are at most as
  many workplaces as sizes, and for the \<open>n\<close>-th workplace: if it is not the last one
  returned, its member count is at most its size in \<open>workplace_sizes\<close> (at most 1 when that
  size is below 1, for the anchor is always placed); for counts that are not negative and a
  size that is not negative its member count is at most the size plus one; and its member
  count is at most the number of uids that were in the pools when the workplace was
  started (the input pools less the members of the earlier workplaces).  Only the
  workplace built by the drain of line 189 can exceed its size: the drain sets every
  count to zero (line 197), so the loop stops at lines 154-155 and that workplace is the
  last.
\<close>

theorem assign_rest_of_workers_group_size:
  assumes run: "assign_rest_of_workers workplace_sizes potential pools counts age_brackets
                   age_by_brackets_dic contact_matrix tp
                  = Done (syn_workplaces, syn_workplace_uids, st', tp')"
    and dp: "distinct (map fst pools)" and dc: "distinct (map fst counts)"
  shows "length syn_workplace_uids \<le> length workplace_sizes \<and>
         (\<forall>n<length syn_workplace_uids.
            (Suc n < length syn_workplace_uids \<longrightarrow>
               int (length (syn_workplace_uids ! n)) \<le> max 1 (workplace_sizes ! n)) \<and>
            (list_all (\<lambda>c. 0 \<le> c) (map snd counts) \<longrightarrow> 0 \<le> workplace_sizes ! n \<longrightarrow>
               int (length (syn_workplace_uids ! n)) \<le> workplace_sizes ! n + 1) \<and>
            length (syn_workplace_uids ! n) + length (concat (take n syn_workplace_uids))
              \<le> length (concat (map snd pools)))"
proof -
  from run obtain m' where
    l: "workplaces_loop age_brackets age_by_brackets_dic workplace_sizes
          \<lparr>potential_worker_uids = potential, potential_worker_uids_by_age = pools,
           workers_by_age_to_assign_count = counts, contact_matrix_W = m'\<rparr> [] [] tp
        = Done (syn_workplaces, syn_workplace_uids, st', tp')"
    by (auto simp: assign_rest_of_workers_def split: run.splits)
  let ?st = "\<lparr>potential_worker_uids = potential, potential_worker_uids_by_age = pools,
           workers_by_age_to_assign_count = counts, contact_matrix_W = m'\<rparr>"
  have ok: "dicts_ok ?st" using dp dc by (simp add: dicts_ok_def)
  have n0: "counts_nonneg ?st \<longleftrightarrow> list_all (\<lambda>c. 0 \<le> c) (map snd counts)"
    by (simp add: counts_nonneg_def)
  from workplaces_loop_target[OF l ok] have
    a: "length syn_workplace_uids \<le> length workplace_sizes"
       "\<forall>n. Suc n < length syn_workplace_uids \<longrightarrow>
          int (length (syn_workplace_uids ! n)) \<le> max 1 (workplace_sizes ! n)"
       "list_all (\<lambda>c. 0 \<le> c) (map snd counts) \<longrightarrow>
          (\<forall>n<length syn_workplace_uids. 0 \<le> workplace_sizes ! n \<longrightarrow>
             int (length (syn_workplace_uids ! n)) \<le> workplace_sizes ! n + 1)"
       "mset (concat (map snd pools)) = mset (concat syn_workplace_uids) + mset (pooled_uids st')"
    unfolding n0 by (auto simp: pooled_uids_def)
  have tot: "length (concat syn_workplace_uids) \<le> length (concat (map snd pools))"
  proof -
    have "size (mset (concat (map snd pools)))
            = size (mset (concat syn_workplace_uids)) + size (mset (pooled_uids st'))"
      using a(4) by simp
    then show ?thesis by simp
  qed
  have "length (syn_workplace_uids ! n) + length (concat (take n syn_workplace_uids))
          \<le> length (concat (map snd pools))" if n: "n < length syn_workplace_uids" for n
  proof -
    have "concat (take (Suc n) syn_workplace_uids)
            = concat (take n syn_workplace_uids) @ syn_workplace_uids ! n"
      using n by (simp add: take_Suc_conv_app_nth)
    then have "length (syn_workplace_uids ! n) + length (concat (take n syn_workplace_uids))
                 = length (concat (take (Suc n) syn_workplace_uids))" by simp
    also have "\<dots> \<le> length (concat syn_workplace_uids)" by (rule length_concat_take)
    finally show ?thesis using tot by simp
  qed
  with a(1,2,3) show ?thesis by blast
qed

theorem assign_rest_of_workers_group_size_witness:
  "distinct (map fst [(20::nat, [1::nat, 2]), (30, [3, 4, 5, 6, 7])]) \<and>
   distinct (map fst [(20::nat, 2::int), (30, 4)]) \<and>
   list_all (\<lambda>c. 0 \<le> c) (map snd [(20::nat, 2::int), (30, 4)]) \<and>
   assign_rest_of_workers [3, 2] [(1, 20), (2, 20), (3, 30), (4, 30), (5, 30), (6, 30), (7, 30)]
       [(20, [1, 2]), (30, [3, 4, 5, 6, 7])] [(20, 2), (30, 4)] [(0, [20]), (1, [30])]
       [(20, 0), (30, 1)] [[1, 1], [1, 1]] [0, 1, 0, 1, 0, 1, 0, 0, 0, 0]
     = Done ([[20, 30, 30], [30, 20, 30]], [[1, 3, 4], [5, 2, 6]],
         \<lparr>potential_worker_uids = [(7, 30)],
          potential_worker_uids_by_age = [(20, []), (30, [7])],
          workers_by_age_to_assign_count = [(20, 0), (30, 0)],
          contact_matrix_W = [[1, 1], [1, 1]]\<rparr>, [0, 0, 0, 0]) \<and>
   Suc 0 < length [[1::nat, 3, 4], [5, 2, 6]] \<and>
   int (length ([[1::nat, 3, 4], [5, 2, 6]] ! 0)) \<le> max 1 ([3, 2] ! 0) \<and>
   (0::int) \<le> [3, 2] ! 1 \<and>
   int (length ([[1::nat, 3, 4], [5, 2, 6]] ! 1)) \<le> [3, 2] ! 1 + 1 \<and>
   length ([[1::nat, 3, 4], [5, 2, 6]] ! 1) + length (concat (take 1 [[1::nat, 3, 4], [5, 2, 6]]))
     \<le> length (concat (map snd [(20::nat, [1::nat, 2]), (30, [3, 4, 5, 6, 7])]))"
proof -
  have run: "assign_rest_of_workers [3, 2] [(1, 20), (2, 20), (3, 30), (4, 30), (5, 30), (6, 30), (7, 30)]
       [(20, [1, 2]), (30, [3, 4, 5, 6, 7])] [(20, 2), (30, 4)] [(0, [20]), (1, [30])]
       [(20, 0), (30, 1)] [[1, 1], [1, 1]] [0, 1, 0, 1, 0, 1, 0, 0, 0, 0]
     = Done ([[20, 30, 30], [30, 20, 30]], [[1, 3, 4], [5, 2, 6]],
         \<lparr>potential_worker_uids = [(7, 30)],
          potential_worker_uids_by_age = [(20, []), (30, [7])],
          workers_by_age_to_assign_count = [(20, 0), (30, 0)],
          contact_matrix_W = [[1, 1], [1, 1]]\<rparr>, [0, 0, 0, 0])"
    by code_simp
  have h: "distinct (map fst [(20::nat, [1::nat, 2]), (30, [3, 4, 5, 6, 7])])"
       "distinct (map fst [(20::nat, 2::int), (30, 4)])"
    by simp_all
  have nn: "list_all (\<lambda>c. 0 \<le> c) (map snd [(20::nat, 2::int), (30, 4)])" by simp
  have k: "(0::nat) < length [[1::nat, 3, 4], [5, 2, 6]]" "(1::nat) < length [[1::nat, 3, 4], [5, 2, 6]]"
          "Suc 0 < length [[1::nat, 3, 4], [5, 2, 6]]" "(0::int) \<le> [3, 2] ! 1"
    by simp_all
  note t = assign_rest_of_workers_group_size [OF run h]
  from t k(1,3) have
    a: "int (length ([[1::nat, 3, 4], [5, 2, 6]] ! 0)) \<le> max 1 ([3, 2] ! 0)" by blast
  from t k(2,4) nn have
    b: "int (length ([[1::nat, 3, 4], [5, 2, 6]] ! 1)) \<le> [3, 2] ! 1 + 1 \<and>
        length ([[1::nat, 3, 4], [5, 2, 6]] ! 1) + length (concat (take 1 [[1::nat, 3, 4], [5, 2, 6]]))
          \<le> length (concat (map snd [(20::nat, [1::nat, 2]), (30, [3, 4, 5, 6, 7])]))"
    by blast
  from run h nn k(3,4) a b show ?thesis by blast
qed

text \<open>
  Claim C7 as stated fails: seven potential workers of which five are to be assigned,
  sizes 4 and 1.  After the anchor four workers are left to assign, which is not more
  than the size 4, so line 189 drains all four into the first workplace: five members
  for a target of four.
\<close>

theorem assign_rest_of_workers_exceeds_target:
  "assign_rest_of_workers [4, 1]
       [(1, 20), (2, 20), (3, 20), (4, 20), (5, 20), (6, 20), (7, 20)]
       [(20, [1, 2, 3, 4, 5, 6, 7])] [(20, 5)] [(0, [20])] [(20, 0)] [[1]] [0]
     = Done ([[20, 20, 20, 20, 20]], [[1, 2, 3, 4, 5]],
         \<lparr>potential_worker_uids = [(6, 20), (7, 20)],
          potential_worker_uids_by_age = [(20, [6, 7])],
          workers_by_age_to_assign_count = [(20, 0)], contact_matrix_W = [[1]]\<rparr>, []) \<and>
   [4, 1] ! 0 < int (length ([[1::nat, 2, 3, 4, 5]] ! 0))"
  by code_simp

lemma sum_list_zeros: "\<forall>x\<in>set xs. x = 0 \<Longrightarrow> sum_list xs = (0::real)"
  by (induction xs) auto

lemma fill_slot_zero_row:
  assumes run: "fill_slot ab bindex b_prob st nw nwu tp = Done (b_prob', st', nw', nwu', tp')"
    and z: "sum_list b_prob = 0" and bi: "bindex < nrows (contact_matrix_W st)"
    and row: "\<forall>x\<in>set (contact_matrix_W st ! bindex). x = 0"
  shows "nw' = nw \<and> nwu' = nwu \<and>
         potential_worker_uids_by_age st' = potential_worker_uids_by_age st \<and>
         workers_by_age_to_assign_count st' = workers_by_age_to_assign_count st \<and>
         potential_worker_uids st' = potential_worker_uids st \<and>
         sum_list b_prob' = 0 \<and> bindex < nrows (contact_matrix_W st') \<and>
         (\<forall>x\<in>set (contact_matrix_W st' ! bindex). x = 0)"
proof -
  from fill_slot_cases[OF run] z obtain bi0 where
    same: "nw' = nw" "nwu' = nwu" and
    post: "turn_off_if_empty ab bindex b_prob bi0 st = Done (b_prob', st')"
    by auto
  from turn_off_if_empty_Done[OF post] show ?thesis
  proof
    assume "b_prob' = b_prob \<and> st' = st"
    with same z bi row show ?thesis by simp
  next
    assume a: "bi0 < ncols (contact_matrix_W st) \<and>
          b_prob' = row_prob (zero_column bi0 (contact_matrix_W st)) bindex \<and>
          st' = st\<lparr>contact_matrix_W := zero_column bi0 (contact_matrix_W st)\<rparr>"
    let ?m = "zero_column bi0 (contact_matrix_W st)"
    have r: "?m ! bindex = (contact_matrix_W st ! bindex)[bi0 := 0]"
      using bi by (simp add: zero_column_def nrows_def)
    have rz: "\<forall>x\<in>set (?m ! bindex). x = 0"
      unfolding r using row by (metis insertE set_update_subset_insert subsetD)
    then have s0: "sum_list (?m ! bindex) = 0" by (rule sum_list_zeros)
    then have "row_prob ?m bindex = ?m ! bindex" by (simp add: row_prob_def Let_def)
    with a same rz s0 bi show ?thesis by (simp add: nrows_def zero_column_def)
  qed
qed

lemma fill_slots_zero_row:
  "fill_slots ab bindex n b_prob st nw nwu tp = Done (st', nw', nwu', tp') \<Longrightarrow>
   sum_list b_prob = 0 \<Longrightarrow> bindex < nrows (contact_matrix_W st) \<Longrightarrow>
   \<forall>x\<in>set (contact_matrix_W st ! bindex). x = 0 \<Longrightarrow>
     nw' = nw \<and> nwu' = nwu \<and>
     potential_worker_uids_by_age st' = potential_worker_uids_by_age st \<and>
     workers_by_age_to_assign_count st' = workers_by_age_to_assign_count st \<and>
     potential_worker_uids st' = potential_worker_uids st"
proof (induction n arbitrary: b_prob st nw nwu tp)
  case 0
  then show ?case by simp
next
  case (Suc n)
  from Suc.prems(1) obtain b1 st1 nw1 nwu1 tp1 where
    f: "fill_slot ab bindex b_prob st nw nwu tp = Done (b1, st1, nw1, nwu1, tp1)" and
    r: "fill_slots ab bindex n b1 st1 nw1 nwu1 tp1 = Done (st', nw', nwu', tp')"
    by (auto split: run.splits)
  note z = fill_slot_zero_row[OF f Suc.prems(2,3,4)]
  from z have a: "sum_list b1 = 0" "bindex < nrows (contact_matrix_W st1)"
    "\<forall>x\<in>set (contact_matrix_W st1 ! bindex). x = 0" by auto
  from Suc.IH[OF r a] z show ?case by simp
qed

text \<open>
  Claim C6, as amended.  In the slot-by-slot filling of a workplace (lines 200-230), when
  the row of the anchor's bracket in the contact matrix sums to zero (its entries being
  non-negative), every remaining slot is skipped: whenever the filling returns, the
  workplace has the members it had, and the pools, the counts and the potential workers
  are as they were.  There is no fallback to a uniform choice among the non-empty pools.
\<close>

theorem fill_slots_skips_on_zero_row:
  assumes run: "fill_slots age_brackets bindex n (row_prob (contact_matrix_W st) bindex) st
                   new_work new_work_uids tp = Done (st', new_work', new_work_uids', tp')"
    and bi: "bindex < nrows (contact_matrix_W st)"
    and nonneg: "list_all (\<lambda>x. 0 \<le> x) (contact_matrix_W st ! bindex)"
    and zero: "sum_list (contact_matrix_W st ! bindex) = 0"
  shows "new_work' = new_work \<and> new_work_uids' = new_work_uids \<and>
         potential_worker_uids_by_age st' = potential_worker_uids_by_age st \<and>
         workers_by_age_to_assign_count st' = workers_by_age_to_assign_count st \<and>
         potential_worker_uids st' = potential_worker_uids st"
proof -
  have "\<forall>x\<in>set (contact_matrix_W st ! bindex). 0 \<le> x" using nonneg by (simp add: list_all_iff)
  then have row: "\<forall>x\<in>set (contact_matrix_W st ! bindex). x = 0"
    using zero by (simp add: sum_list_nonneg_eq_0_iff)
  have "row_prob (contact_matrix_W st) bindex = contact_matrix_W st ! bindex"
    using zero by (simp add: row_prob_def Let_def)
  then have z: "sum_list (row_prob (contact_matrix_W st) bindex) = 0" using zero by simp
  from fill_slots_zero_row[OF run z bi row] show ?thesis .
qed

theorem fill_slots_skips_on_zero_row_witness:
  "(0::nat) < nrows [[0, 0], [0, 1]] \<and>
   list_all (\<lambda>x. 0 \<le> x) ([[0, 0], [0, 1::real]] ! 0) \<and>
   sum_list ([[0, 0], [0, 1::real]] ! 0) = 0 \<and>
   fill_slots [(0, [20]), (1, [30])] 0 2 (row_prob [[0, 0], [0, 1]] 0)
       \<lparr>potential_worker_uids = [(2, 20), (3, 30), (4, 30), (5, 30), (6, 30)],
        potential_worker_uids_by_age = [(20, [2]), (30, [3, 4, 5, 6])],
        workers_by_age_to_assign_count = [(20, 1), (30, 4)],
        contact_matrix_W = [[0, 0], [0, 1]]\<rparr> [20] [1] [0, 1]
     = Done (\<lparr>potential_worker_uids = [(2, 20), (3, 30), (4, 30), (5, 30), (6, 30)],
              potential_worker_uids_by_age = [(20, [2]), (30, [3, 4, 5, 6])],
              workers_by_age_to_assign_count = [(20, 1), (30, 4)],
              contact_matrix_W = [[0, 0], [0, 1]]\<rparr>, [20], [1], [])"
proof -
  let ?st = "\<lparr>potential_worker_uids = [(2, 20), (3, 30), (4, 30), (5, 30), (6, 30)],
        potential_worker_uids_by_age = [(20, [2]), (30, [3, 4, 5, 6])],
        workers_by_age_to_assign_count = [(20, 1), (30, 4)],
        contact_matrix_W = [[0, 0], [0, 1]]\<rparr>"
  have h: "(0::nat) < nrows (contact_matrix_W ?st)"
       "list_all (\<lambda>x. 0 \<le> x) (contact_matrix_W ?st ! 0)"
       "sum_list (contact_matrix_W ?st ! 0) = 0"
    by (simp_all add: nrows_def)
  have run: "fill_slots [(0, [20]), (1, [30])] 0 2 (row_prob (contact_matrix_W ?st) 0)
          ?st [20] [1] [0, 1] = Done (?st, [20], [1], [])"
    by code_simp
  from fill_slots_skips_on_zero_row [OF run h]
  have "potential_worker_uids_by_age ?st = [(20, [2]), (30, [3, 4, 5, 6])]" by simp
  with run h show ?thesis by (simp add: nrows_def)
qed

text \<open>
  Claim C6 as stated fails: the row of the bracket of age 20 is zero, four workers of age
  30 wait in their pool and are counted to be assigned, and both workplaces of the size 3
  end with their anchor alone: the two remaining slots of each are skipped.
\<close>

theorem assign_rest_of_workers_skips_slots:
  "assign_rest_of_workers [3, 3] [(1, 20), (2, 20), (3, 30), (4, 30), (5, 30), (6, 30)]
       [(20, [1, 2]), (30, [3, 4, 5, 6])] [(20, 2), (30, 4)] [(0, [20]), (1, [30])]
       [(20, 0), (30, 1)] [[0, 0], [0, 1]] [0, 0, 0, 0, 0, 0]
     = Done ([[20], [20]], [[1], [2]],
         \<lparr>potential_worker_uids = [(3, 30), (4, 30), (5, 30), (6, 30)],
          potential_worker_uids_by_age = [(20, []), (30, [3, 4, 5, 6])],
          workers_by_age_to_assign_count = [(20, 0), (30, 4)],
          contact_matrix_W = [[0, 0], [0, 1]]\<rparr>, []) \<and>
   sum_list ([[0, 0], [0, 1::real]] ! 0) = 0 \<and>
   int (length ([[1::nat], [2]] ! 0)) < [3, 3] ! 0"
  by code_simp

section \<open>Properties of create_reduced_contacts_with_group_types\<close>

lemma for_each_invariant:
  assumes "for_each xs body s = Done s'" "P s"
    and "\<And>x t t'. x \<in> set xs \<Longrightarrow> P t \<Longrightarrow> body x t = Done t' \<Longrightarrow> P t'"
  shows "P s'"
  using assms
proof (induction xs arbitrary: s)
  case Nil
  then show ?case by simp
next
  case (Cons x xs)
  from Cons.prems(1) obtain s1 where b: "body x s = Done s1" and r: "for_each xs body s1 = Done s'"
    by (auto split: run.splits)
  have "P s1" using Cons.prems(3)[OF _ Cons.prems(2) b] by simp
  moreover have "\<And>y t t'. y \<in> set xs \<Longrightarrow> P t \<Longrightarrow> body y t = Done t' \<Longrightarrow> P t'"
    using Cons.prems(3) by (meson list.set_intros(2))
  ultimately show ?case using Cons.IH[OF r] by blast
qed

lemma for_each_not_raised:
  assumes "P s"
    and "\<And>x t. x \<in> set xs \<Longrightarrow> P t \<Longrightarrow> (\<forall>e. body x t \<noteq> Raised e) \<and> (\<forall>t'. body x t = Done t' \<longrightarrow> P t')"
  shows "for_each xs body s \<noteq> Raised e"
  using assms
proof (induction xs arbitrary: s)
  case Nil
  then show ?case by simp
next
  case (Cons x xs)
  have b: "(\<forall>e. body x s \<noteq> Raised e) \<and> (\<forall>t'. body x s = Done t' \<longrightarrow> P t')"
    using Cons.prems(2)[of x s] Cons.prems(1) by simp
  have step: "\<And>y t. y \<in> set xs \<Longrightarrow> P t \<Longrightarrow>
      (\<forall>e. body y t \<noteq> Raised e) \<and> (\<forall>t'. body y t = Done t' \<longrightarrow> P t')"
    using Cons.prems(2) by (meson list.set_intros(2))
  show ?case
  proof (cases "body x s")
    case (Done s1)
    then have "P s1" using b by simp
    from Cons.IH[OF this step] Done show ?thesis by simp
  next
    case (Raised x2)
    with b show ?thesis by simp
  next
    case NoDraws
    then show ?thesis by simp
  qed
qed

lemma add_contact_Done:
  assumes "add_contact k c uid pd = Done pd'"
  shows "dom pd' = dom pd"
    and "contact_set pd' u k' = (if u = uid \<and> k' = k then insert c (contact_set pd u k') else contact_set pd u k')"
    and "has_setting pd k'' \<Longrightarrow> has_setting pd' k''"
  using assms
  by (auto simp: add_contact_def contact_set_def set_contacts_def has_setting_def
           split: option.splits if_splits)

lemma add_contact_ok:
  "uid \<in> dom pd \<Longrightarrow> has_setting pd k \<Longrightarrow> \<exists>pd'. add_contact k c uid pd = Done pd'"
  by (fastforce simp: add_contact_def has_setting_def split: option.splits)

lemma edge_contacts_Nil: "edge_contacts grp [] u = {}"
  by (simp add: edge_contacts_def)

lemma edge_contacts_Cons:
  "edge_contacts grp ((i, j) # E) u =
     (if grp ! i = u then {grp ! j} else {}) \<union> (if grp ! j = u then {grp ! i} else {})
       \<union> edge_contacts grp E u"
  by (auto simp: edge_contacts_def)

lemma add_edges_ok:
  "set grp \<subseteq> dom pd \<Longrightarrow> has_setting pd k \<Longrightarrow>
   \<forall>(i, j)\<in>set E. i < length grp \<and> j < length grp \<Longrightarrow>
     \<exists>pd'. add_edges grp k E pd = (pd', Done ()) \<and> dom pd' = dom pd \<and> has_setting pd' k \<and>
       (\<forall>u k'. contact_set pd' u k' =
          (if k' = k then contact_set pd u k' \<union> edge_contacts grp E u else contact_set pd u k'))"
proof (induction E arbitrary: pd)
  case Nil
  then show ?case by (simp add: edge_contacts_Nil)
next
  case (Cons e E)
  obtain i j where e: "e = (i, j)" by (cases e)
  have ij: "i < length grp" "j < length grp" using Cons.prems(3) e by auto
  then have "grp ! i \<in> dom pd" "grp ! j \<in> dom pd" using Cons.prems(1) by (auto simp: subset_iff)
  from add_contact_ok[OF this(1) Cons.prems(2)] obtain pd1 where
    a1: "add_contact k (grp ! j) (grp ! i) pd = Done pd1" by blast
  note d1 = add_contact_Done[OF a1]
  have "grp ! j \<in> dom pd1" using \<open>grp ! j \<in> dom pd\<close> d1(1) by simp
  from add_contact_ok[OF this d1(3)[OF Cons.prems(2)]] obtain pd2 where
    a2: "add_contact k (grp ! i) (grp ! j) pd1 = Done pd2" by blast
  note d2 = add_contact_Done[OF a2]
  have p2: "set grp \<subseteq> dom pd2" "has_setting pd2 k"
    using Cons.prems(1,2) d1 d2 by auto
  from Cons.IH[OF p2] Cons.prems(3) obtain pd' where
    r: "add_edges grp k E pd2 = (pd', Done ())" "dom pd' = dom pd2" "has_setting pd' k"
       "\<forall>u k'. contact_set pd' u k' =
          (if k' = k then contact_set pd2 u k' \<union> edge_contacts grp E u else contact_set pd2 u k')"
    by auto
  have "add_edges grp k (e # E) pd = (pd', Done ())" using e ij a1 a2 r(1) by simp
  moreover have "dom pd' = dom pd" using r(2) d1(1) d2(1) by simp
  moreover have "\<forall>u k'. contact_set pd' u k' =
          (if k' = k then contact_set pd u k' \<union> edge_contacts grp (e # E) u else contact_set pd u k')"
    using r(4) d1(2) d2(2) e by (auto simp: edge_contacts_Cons)
  ultimately show ?case using r(3) by blast
qed

lemma setdefault_setting_dom: "dom (setdefault_setting k pd) = dom pd"
  by (auto simp: setdefault_setting_def dom_def)

lemma setdefault_setting_has: "has_setting (setdefault_setting k pd) k"
  unfolding has_setting_def
proof (intro allI impI)
  fix uid p assume "setdefault_setting k pd uid = Some p"
  then obtain q where q: "pd uid = Some q"
    "p = (case contacts q k of None \<Rightarrow> set_contacts k {} q | Some s \<Rightarrow> q)"
    by (auto simp: setdefault_setting_def)
  then show "contacts p k \<noteq> None"
    by (cases "contacts q k") (simp_all add: set_contacts_def)
qed

lemma setdefault_setting_contact_set:
  "contact_set (setdefault_setting k pd) u k' = contact_set pd u k'"
proof (cases "pd u")
  case None
  then show ?thesis by (simp add: setdefault_setting_def contact_set_def)
next
  case (Some q)
  then show ?thesis
    by (cases "contacts q k") (simp_all add: setdefault_setting_def contact_set_def set_contacts_def)
qed

lemma set_complete_graph: "set (complete_graph n) = {(i, j). i < j \<and> j < n}"
  by (force simp: complete_graph_def)

lemma set_neighbors: "set (neighbors G i) = {j. has_edge G i j}"
proof (intro set_eqI iffI)
  fix x assume "x \<in> set (neighbors G i)"
  then show "x \<in> {j. has_edge G i j}"
    by (auto simp: neighbors_def has_edge_def split: if_splits)
next
  fix x assume "x \<in> {j. has_edge G i j}"
  then have "(i, x) \<in> set G \<or> (x, i) \<in> set G" by (simp add: has_edge_def)
  then show "x \<in> set (neighbors G i)"
  proof
    assume "(i, x) \<in> set G"
    then show ?thesis unfolding neighbors_def by (auto intro!: bexI[of _ "(i, x)"])
  next
    assume "(x, i) \<in> set G"
    then show ?thesis unfolding neighbors_def by (auto intro!: bexI[of _ "(x, i)"])
  qed
qed

lemma distinct_neighbors: "distinct (neighbors G i)"
  by (simp add: neighbors_def)

lemma remove_edge_Done: "remove_edge G i j = Done G' \<Longrightarrow> set G' \<subseteq> set G"
  by (auto simp: remove_edge_def split: if_splits)

lemma remove_edge_has:
  "remove_edge G i j = Done G' \<Longrightarrow> has_edge G a b \<Longrightarrow> (a, b) \<noteq> (i, j) \<Longrightarrow> (a, b) \<noteq> (j, i) \<Longrightarrow>
     has_edge G' a b"
  by (auto simp: remove_edge_def has_edge_def split: if_splits)

lemma remove_edge_ok: "has_edge G i j \<Longrightarrow> \<exists>G'. remove_edge G i j = Done G'"
  by (simp add: remove_edge_def)

lemma remove_edge_not_raised: "has_edge G i j \<Longrightarrow> remove_edge G i j \<noteq> Raised e"
  by (simp add: remove_edge_def)

lemma set_add_edge: "set (add_edge G i j) \<subseteq> insert (i, j) (set G)"
  by (auto simp: add_edge_def)

lemma has_edge_add_edge: "has_edge G a b \<Longrightarrow> has_edge (add_edge G i j) a b"
  by (auto simp: add_edge_def has_edge_def)

lemma simple_on_iff: "simple_on n G \<longleftrightarrow> (\<forall>(i, j)\<in>set G. i < n \<and> j < n \<and> i \<noteq> j)"
  by (simp add: simple_on_def list_all_iff)

lemma simple_on_subset: "simple_on n G \<Longrightarrow> set G' \<subseteq> set G \<Longrightarrow> simple_on n G'"
  by (auto simp: simple_on_iff)

lemma simple_on_add_edge:
  "simple_on n G \<Longrightarrow> i < n \<Longrightarrow> j < n \<Longrightarrow> i \<noteq> j \<Longrightarrow> simple_on n (add_edge G i j)"
  using set_add_edge[of G i j] by (auto simp: simple_on_iff)

lemma simple_on_complete_graph: "simple_on n (complete_graph n)"
  by (auto simp: simple_on_iff set_complete_graph)

lemma np_random_choice_cases:
  "a \<noteq> [] \<Longrightarrow> np_random_choice a tp = NoDraws \<or> (\<exists>x tp'. x \<in> set a \<and> np_random_choice a tp = Done (x, tp'))"
  by (cases tp) (auto simp: np_random_choice_def)

lemma cut_contacts_props:
  "distinct g1n \<Longrightarrow> \<forall>j\<in>set g1n. has_edge G i j \<Longrightarrow> k \<le> length g1n \<Longrightarrow>
     cut_contacts i k g1n (G, tp) \<noteq> Raised e \<and>
     (\<forall>G' tp'. cut_contacts i k g1n (G, tp) = Done (G', tp') \<longrightarrow> set G' \<subseteq> set G)"
proof (induction k arbitrary: g1n G tp)
  case 0
  then show ?case by simp
next
  case (Suc k)
  then have ne: "g1n \<noteq> []" by auto
  from np_random_choice_cases[OF ne, of tp] show ?case
  proof
    assume "np_random_choice g1n tp = NoDraws"
    then show ?thesis by simp
  next
    assume "\<exists>x tp'. x \<in> set g1n \<and> np_random_choice g1n tp = Done (x, tp')"
    then obtain j tp1 where j: "j \<in> set g1n" "np_random_choice g1n tp = Done (j, tp1)" by blast
    then have "has_edge G i j" using Suc.prems(2) by blast
    then obtain G1 where G1: "remove_edge G i j = Done G1" using remove_edge_ok by blast
    have d: "distinct (remove1 j g1n)" using Suc.prems(1) by simp
    have h: "\<forall>x\<in>set (remove1 j g1n). has_edge G1 i x"
    proof
      fix x assume x: "x \<in> set (remove1 j g1n)"
      then have xj: "x \<noteq> j" "x \<in> set g1n" using Suc.prems(1) by auto
      then have e: "has_edge G i x" using Suc.prems(2) by auto
      show "has_edge G1 i x" using remove_edge_has[OF G1 e] xj(1) by auto
    qed
    have l: "k \<le> length (remove1 j g1n)" using Suc.prems(3) j(1) by (simp add: length_remove1)
    from Suc.IH[OF d h l, of tp1] remove_edge_Done[OF G1] j(2) G1 show ?thesis by auto
  qed
qed

lemma trim_group_1_props:
  assumes "0 \<le> d"
  shows "trim_group_1 n1 d i (G, tp) \<noteq> Raised e \<and>
     (\<forall>G' tp'. trim_group_1 n1 d i (G, tp) = Done (G', tp') \<longrightarrow> set G' \<subseteq> set G)"
proof -
  let ?g = "filter (\<lambda>j. j \<in> set n1) (neighbors G i)"
  show ?thesis
  proof (cases "int (length ?g) > d")
    case False
    then show ?thesis by (simp add: trim_group_1_def)
  next
    case True
    have d: "distinct ?g" by (simp add: distinct_neighbors)
    have k: "nat (int (length ?g) - d) \<le> length ?g" using assms by simp
    have h: "\<forall>j\<in>set ?g. has_edge G i j" by (auto simp: set_neighbors)
    from cut_contacts_props[OF d h k, of tp e] True show ?thesis
      by (simp add: trim_group_1_def Let_def)
  qed
qed

lemma force_cross_edge_props:
  assumes "n2 \<noteq> []"
  shows "force_cross_edge n2 i (G, tp) \<noteq> Raised e \<and>
     (\<forall>G' tp'. force_cross_edge n2 i (G, tp) = Done (G', tp') \<longrightarrow>
        set G' \<subseteq> set G \<union> {(i, j) | j. j \<in> set n2})"
proof (cases "filter (\<lambda>j. j \<in> set n2) (neighbors G i) = []")
  case False
  then show ?thesis by (simp add: force_cross_edge_def)
next
  case True
  from np_random_choice_cases[OF assms, of tp] show ?thesis
  proof
    assume "np_random_choice n2 tp = NoDraws"
    with True show ?thesis by (simp add: force_cross_edge_def)
  next
    assume "\<exists>x tp'. x \<in> set n2 \<and> np_random_choice n2 tp = Done (x, tp')"
    then obtain j tp1 where j: "j \<in> set n2" "np_random_choice n2 tp = Done (j, tp1)" by blast
    with True set_add_edge[of G i j] show ?thesis
      by (auto simp: force_cross_edge_def)
  qed
qed

lemma swap_cross_edge_props:
  assumes "n2 \<noteq> []"
  shows "swap_cross_edge n2 i (G, tp) \<noteq> Raised e \<and>
     (\<forall>G' tp'. swap_cross_edge n2 i (G, tp) = Done (G', tp') \<longrightarrow>
        set G' \<subseteq> set G \<union> {(i, j) | j. j \<in> set n2})"
proof (cases "filter (\<lambda>j. j \<in> set n2) (neighbors G i) = []")
  case False
  then show ?thesis by (simp add: swap_cross_edge_def)
next
  case True
  from np_random_choice_cases[OF assms, of tp] show ?thesis
  proof
    assume "np_random_choice n2 tp = NoDraws"
    with True show ?thesis by (simp add: swap_cross_edge_def)
  next
    assume "\<exists>x tp'. x \<in> set n2 \<and> np_random_choice n2 tp = Done (x, tp')"
    then obtain j tp1 where j: "j \<in> set n2" "np_random_choice n2 tp = Done (j, tp1)" by blast
    let ?nb = "filter (\<lambda>ii. ii \<in> set n2) (neighbors G j)"
    let ?G1 = "add_edge G i j"
    have s1: "set ?G1 \<subseteq> set G \<union> {(i, j) | j. j \<in> set n2}"
      using set_add_edge[of G i j] j(1) by auto
    show ?thesis
    proof (cases "?nb = []")
      case nb: True
      with True j s1 show ?thesis by (simp add: swap_cross_edge_def Let_def)
    next
      case nb: False
      from np_random_choice_cases[OF nb, of tp1] show ?thesis
      proof
        assume "np_random_choice ?nb tp1 = NoDraws"
        with True j nb show ?thesis by (simp add: swap_cross_edge_def Let_def)
      next
        assume "\<exists>x tp'. x \<in> set ?nb \<and> np_random_choice ?nb tp1 = Done (x, tp')"
        then obtain c tp2 where c: "c \<in> set ?nb" "np_random_choice ?nb tp1 = Done (c, tp2)"
          by blast
        then have "has_edge G j c" by (simp add: set_neighbors)
        then have "has_edge ?G1 j c" by (rule has_edge_add_edge)
        then obtain G2 where G2: "remove_edge ?G1 j c = Done G2" using remove_edge_ok by blast
        have "set G2 \<subseteq> set G \<union> {(i, j) | j. j \<in> set n2}"
          using remove_edge_Done[OF G2] s1 by blast
        with True j nb c(2) G2 show ?thesis by (simp add: swap_cross_edge_def Let_def)
      qed
    qed
  qed
qed

lemma draw_edges_props:
  "draw_edges es tp \<noteq> Raised e \<and> (\<forall>G tp'. draw_edges es tp = Done (G, tp') \<longrightarrow> set G \<subseteq> set es)"
proof (induction es tp rule: draw_edges.induct)
  case (3 e' es r tp)
  then show ?case by (auto split: run.splits)
qed simp_all

lemma build_graph_props:
  assumes d: "2 \<le> d" and l2: "0 < len2"
  shows "build_graph len1 len2 d tp \<noteq> Raised e \<and>
     (\<forall>G tp'. build_graph len1 len2 d tp = Done (G, tp') \<longrightarrow> simple_on (len1 + len2) G)"
proof -
  let ?n = "len1 + len2"
  let ?n1 = "[0..<len1]" and ?n2 = "[len1..<len1 + len2]"
  let ?P = "\<lambda>s. simple_on ?n (fst s)"
  have n2: "?n2 \<noteq> []" using l2 by simp
  have d0: "0 \<le> d" using d by simp
  have c: "simple_on ?n (complete_graph ?n)" by (rule simple_on_complete_graph)
  have cross: "simple_on ?n G'"
    if "simple_on ?n G" "set G' \<subseteq> set G \<union> {(i, j) | j. j \<in> set ?n2}" "i \<in> set ?n1" for G G' i
    using that by (auto simp: simple_on_iff)
  have trim: "(\<forall>e. trim_group_1 ?n1 d i s \<noteq> Raised e) \<and> (\<forall>s'. trim_group_1 ?n1 d i s = Done s' \<longrightarrow> ?P s')"
    if "?P s" for i s
    using trim_group_1_props[OF d0, of ?n1 i "fst s" "snd s"] that simple_on_subset[of ?n "fst s"]
    by auto
  have force: "(\<forall>e. force_cross_edge ?n2 i s \<noteq> Raised e) \<and> (\<forall>s'. force_cross_edge ?n2 i s = Done s' \<longrightarrow> ?P s')"
    if "?P s" "i \<in> set ?n1" for i s
    using force_cross_edge_props[OF n2, of i "fst s" "snd s"] that cross[of "fst s" _ i]
    by auto
  have swap: "(\<forall>e. swap_cross_edge ?n2 i s \<noteq> Raised e) \<and> (\<forall>s'. swap_cross_edge ?n2 i s = Done s' \<longrightarrow> ?P s')"
    if "?P s" "i \<in> set ?n1" for i s
    using swap_cross_edge_props[OF n2, of i "fst s" "snd s"] that cross[of "fst s" _ i]
    by auto
  show ?thesis
  proof (cases "int ?n \<le> d")
    case True
    then show ?thesis using c by (simp add: build_graph_def)
  next
    case nd: False
    show ?thesis
    proof (cases "len2 < 2")
      case True
      have P0: "?P (complete_graph ?n, tp)" using c by simp
      have 1: "for_each ?n1 (trim_group_1 ?n1 d) (complete_graph ?n, tp) \<noteq> Raised e"
        by (rule for_each_not_raised[where P = ?P, OF P0]) (use trim in blast)
      have 2: "?P s'" if "for_each ?n1 (trim_group_1 ?n1 d) (complete_graph ?n, tp) = Done s'" for s'
        by (rule for_each_invariant[where P = ?P, OF that P0]) (use trim in blast)
      from 1 2 nd True show ?thesis by (auto simp: build_graph_def Let_def)
    next
      case False
      show ?thesis
      proof (cases "stochastic_block_model ?n tp")
        case (Done s)
        obtain G tp1 where s: "s = (G, tp1)" by (cases s)
        have "set G \<subseteq> set (complete_graph ?n)"
          using draw_edges_props[of "complete_graph ?n" tp] Done s
          by (simp add: stochastic_block_model_def)
        then have P0: "?P (G, tp1)" using c simple_on_subset by auto
        have 1: "for_each ?n1 (force_cross_edge ?n2) (G, tp1) \<noteq> Raised e"
          by (rule for_each_not_raised[where P = ?P, OF P0]) (use force in blast)
        have 2: "?P s'" if "for_each ?n1 (force_cross_edge ?n2) (G, tp1) = Done s'" for s'
          by (rule for_each_invariant[where P = ?P, OF that P0]) (use force in blast)
        have 3: "for_each ?n1 (swap_cross_edge ?n2) (G, tp1) \<noteq> Raised e"
          by (rule for_each_not_raised[where P = ?P, OF P0]) (use swap in blast)
        have 4: "?P s'" if "for_each ?n1 (swap_cross_edge ?n2) (G, tp1) = Done s'" for s'
          by (rule for_each_invariant[where P = ?P, OF that P0]) (use swap in blast)
        from 1 2 3 4 nd False Done s show ?thesis by (auto simp: build_graph_def Let_def)
      next
        case (Raised x)
        then show ?thesis using draw_edges_props[of "complete_graph ?n" tp]
          by (simp add: stochastic_block_model_def)
      next
        case NoDraws
        then show ?thesis using nd False by (simp add: build_graph_def Let_def)
      qed
    qed
  qed
qed

lemma create_reduced_guard:
  "group_1 = [] \<or> group_2 = [] \<or> average_degree < 2 \<Longrightarrow>
     create_reduced_contacts_with_group_types popdict group_1 group_2 setting average_degree tp
       = (popdict, Raised ValueError)"
  by (auto simp: create_reduced_contacts_with_group_types_def)

lemma create_reduced_Done:
  assumes ne: "group_1 \<noteq> []" "group_2 \<noteq> []" and d: "2 \<le> average_degree"
    and mem: "set group_1 \<union> set group_2 \<subseteq> dom popdict"
  shows "(\<forall>e. snd (create_reduced_contacts_with_group_types popdict group_1 group_2 setting
                     average_degree tp) \<noteq> Raised e) \<and>
         (\<forall>popdict' tp'. create_reduced_contacts_with_group_types popdict group_1 group_2 setting
                     average_degree tp = (popdict', Done tp') \<longrightarrow>
            (\<exists>G. build_graph (length group_1) (length group_2) average_degree tp = Done (G, tp') \<and>
                 simple_on (length group_1 + length group_2) G \<and>
                 dom popdict' = dom popdict \<and>
                 (\<forall>u k'. contact_set popdict' u k' =
                    (if k' = setting
                     then contact_set popdict u k' \<union> edge_contacts (group_1 @ group_2) G u
                     else contact_set popdict u k'))))"
proof -
  let ?pd1 = "setdefault_setting setting popdict"
  let ?grp = "group_1 @ group_2"
  have l2: "0 < length group_2" using ne by simp
  note bg = build_graph_props[OF d l2, of "length group_1" tp]
  show ?thesis
  proof (cases "build_graph (length group_1) (length group_2) average_degree tp")
    case (Done s)
    obtain G tp1 where s: "s = (G, tp1)" by (cases s)
    have so: "simple_on (length group_1 + length group_2) G" using bg Done s by blast
    have m1: "set ?grp \<subseteq> dom ?pd1" using mem by (simp add: setdefault_setting_dom)
    have e: "\<forall>(i, j)\<in>set G. i < length ?grp \<and> j < length ?grp"
      using so by (auto simp: simple_on_iff)
    from add_edges_ok[OF m1 setdefault_setting_has e] obtain pd2 where
      a: "add_edges ?grp setting G ?pd1 = (pd2, Done ())" "dom pd2 = dom ?pd1"
         "\<forall>u k'. contact_set pd2 u k' =
            (if k' = setting then contact_set ?pd1 u k' \<union> edge_contacts ?grp G u
             else contact_set ?pd1 u k')"
      by blast
    have r: "create_reduced_contacts_with_group_types popdict group_1 group_2 setting
               average_degree tp = (pd2, Done tp1)"
      using ne d Done s a(1) by (simp add: create_reduced_contacts_with_group_types_def Let_def)
    show ?thesis unfolding r
      using Done s so a(2,3) by (auto simp: setdefault_setting_dom setdefault_setting_contact_set)
  next
    case (Raised x)
    with bg show ?thesis by blast
  next
    case NoDraws
    then show ?thesis using ne d
      by (simp add: create_reduced_contacts_with_group_types_def Let_def)
  qed
qed

lemma add_contact_raises:
  "add_contact k c uid pd = Raised e \<Longrightarrow> e = KeyError"
  by (auto simp: add_contact_def split: option.splits)

lemma add_edges_raises:
  "add_edges grp k E pd = (pd', Raised e) \<Longrightarrow>
   \<forall>(i, j)\<in>set E. i < length grp \<and> j < length grp \<Longrightarrow> e = KeyError"
proof (induction E arbitrary: pd)
  case Nil
  then show ?case by simp
next
  case (Cons x E)
  obtain i j where x: "x = (i, j)" by (cases x)
  have ij: "i < length grp" "j < length grp" and
    rest: "\<forall>(i, j)\<in>set E. i < length grp \<and> j < length grp" using Cons.prems(2) x by auto
  show ?case
  proof (cases "add_contact k (grp ! j) (grp ! i) pd")
    case (Raised e1)
    with Cons.prems(1) x ij add_contact_raises[OF Raised] show ?thesis by simp
  next
    case NoDraws
    with Cons.prems(1) x ij show ?thesis by simp
  next
    case (Done pd1)
    show ?thesis
    proof (cases "add_contact k (grp ! i) (grp ! j) pd1")
      case (Raised e1)
      with Cons.prems(1) x ij Done add_contact_raises[OF Raised] show ?thesis by simp
    next
      case NoDraws
      with Cons.prems(1) x ij Done show ?thesis by simp
    next
      case d2: (Done pd2)
      with Cons.prems(1) x ij Done have "add_edges grp k E pd2 = (pd', Raised e)" by simp
      from Cons.IH[OF this rest] show ?thesis .
    qed
  qed
qed

lemma create_reduced_raises:
  assumes ne: "group_1 \<noteq> []" "group_2 \<noteq> []" and d: "2 \<le> average_degree"
    and r: "snd (create_reduced_contacts_with_group_types popdict group_1 group_2 setting
                   average_degree tp) = Raised e"
  shows "e = KeyError \<and> \<not> set group_1 \<union> set group_2 \<subseteq> dom popdict"
proof
  have l2: "0 < length group_2" using ne by simp
  note bg = build_graph_props[OF d l2, of "length group_1" tp]
  let ?pd1 = "setdefault_setting setting popdict"
  let ?grp = "group_1 @ group_2"
  show "e = KeyError"
  proof (cases "build_graph (length group_1) (length group_2) average_degree tp")
    case (Done s)
    obtain G tp1 where s: "s = (G, tp1)" by (cases s)
    have so: "simple_on (length group_1 + length group_2) G" using bg Done s by blast
    have e: "\<forall>(i, j)\<in>set G. i < length ?grp \<and> j < length ?grp"
      using so by (auto simp: simple_on_iff)
    obtain pd2 res where a: "add_edges ?grp setting G ?pd1 = (pd2, res)"
      by (cases "add_edges ?grp setting G ?pd1")
    have "res = Raised e" using r ne d Done s a
      by (cases res) (simp_all add: create_reduced_contacts_with_group_types_def Let_def)
    with a add_edges_raises[OF _ e] show ?thesis by blast
  next
    case (Raised x)
    with bg show ?thesis by blast
  next
    case NoDraws
    then show ?thesis using ne d r
      by (simp add: create_reduced_contacts_with_group_types_def Let_def)
  qed
  show "\<not> set group_1 \<union> set group_2 \<subseteq> dom popdict"
    using create_reduced_Done[OF ne d, of popdict setting tp] r by blast
qed

text \<open>
  Claim C4, as amended.  \<open>create_reduced_contacts_with_group_types\<close> raises \<open>ValueError\<close> if
  and only if a group is empty or the average degree is below 2, and then \<open>popdict\<close> is
  left as it was passed in (the two tests of lines 288-294 come before every write).  Any
  other exception it raises is a \<open>KeyError\<close>, and it is raised only when a member of the
  groups is not a key of \<open>popdict\<close>: with both groups non-empty, an average degree of at
  least 2 and every member a key of \<open>popdict\<close>, the call does not raise.
\<close>

theorem create_reduced_raises_iff:
  "(snd (create_reduced_contacts_with_group_types popdict group_1 group_2 setting average_degree tp)
      = Raised ValueError
    \<longleftrightarrow> group_1 = [] \<or> group_2 = [] \<or> average_degree < 2) \<and>
   (group_1 = [] \<or> group_2 = [] \<or> average_degree < 2 \<longrightarrow>
      fst (create_reduced_contacts_with_group_types popdict group_1 group_2 setting average_degree tp)
        = popdict) \<and>
   (\<forall>e. snd (create_reduced_contacts_with_group_types popdict group_1 group_2 setting
               average_degree tp) = Raised e \<and> e \<noteq> ValueError \<longrightarrow>
        e = KeyError \<and> \<not> set group_1 \<union> set group_2 \<subseteq> dom popdict)"
proof (intro conjI impI allI iffI)
  assume "snd (create_reduced_contacts_with_group_types popdict group_1 group_2 setting
                 average_degree tp) = Raised ValueError"
  then show "group_1 = [] \<or> group_2 = [] \<or> average_degree < 2"
    using create_reduced_raises[of group_1 group_2 average_degree popdict setting tp ValueError]
    by fastforce
next
  assume "group_1 = [] \<or> group_2 = [] \<or> average_degree < 2"
  then show "snd (create_reduced_contacts_with_group_types popdict group_1 group_2 setting
                 average_degree tp) = Raised ValueError"
    by (simp add: create_reduced_guard)
next
  assume "group_1 = [] \<or> group_2 = [] \<or> average_degree < 2"
  then show "fst (create_reduced_contacts_with_group_types popdict group_1 group_2 setting
                 average_degree tp) = popdict"
    by (simp add: create_reduced_guard)
next
  fix e
  assume a: "snd (create_reduced_contacts_with_group_types popdict group_1 group_2 setting
               average_degree tp) = Raised e \<and> e \<noteq> ValueError"
  then have "\<not> (group_1 = [] \<or> group_2 = [] \<or> average_degree < 2)"
    using create_reduced_guard[of group_1 group_2 average_degree popdict setting tp] by auto
  then show "e = KeyError" "\<not> set group_1 \<union> set group_2 \<subseteq> dom popdict"
    using create_reduced_raises[of group_1 group_2 average_degree popdict setting tp e] a
    by auto
qed

theorem create_reduced_raises_iff_witness:
  "snd (create_reduced_contacts_with_group_types
          (init_popdict True [(1, 70), (2, 75), (3, 40), (4, 41)] [0, 1, 0, 0] Map.empty)
          [] [3, 4] ''LTCF'' 20 []) = Raised ValueError \<and>
   fst (create_reduced_contacts_with_group_types
          (init_popdict True [(1, 70), (2, 75), (3, 40), (4, 41)] [0, 1, 0, 0] Map.empty)
          [1, 2] [3, 4] ''LTCF'' 1 [])
     = init_popdict True [(1, 70), (2, 75), (3, 40), (4, 41)] [0, 1, 0, 0] Map.empty \<and>
   snd (create_reduced_contacts_with_group_types
          (init_popdict True [(1, 70), (2, 75), (3, 40), (4, 41)] [0, 1, 0, 0] Map.empty)
          [1, 2] [3, 4] ''LTCF'' 2 [1, 0, 0, 0, 0, 1, 0, 0, 0, 0, 0, 0])
     = Done [0, 0, 0] \<and>
   snd (create_reduced_contacts_with_group_types
          (init_popdict True [(1, 70), (2, 75), (3, 40), (4, 41)] [0, 1, 0, 0] Map.empty)
          [1, 2] [3, 4] ''LTCF'' 2 [1, 0, 0, 0, 0, 1, 0, 0, 0, 0, 0, 0])
     \<noteq> Raised ValueError \<and>
   snd (create_reduced_contacts_with_group_types
          (init_popdict True [(1, 70), (2, 75), (3, 40), (4, 41)] [0, 1, 0, 0] Map.empty)
          [1, 2] [3, 9] ''LTCF'' 20 []) = Raised KeyError \<and>
   \<not> set [1, 2] \<union> set [3, 9]
       \<subseteq> dom (init_popdict True [(1, 70), (2, 75), (3, 40), (4, 41)] [0, 1, 0, 0] Map.empty)"
proof -
  let ?pd = "init_popdict True [(1, 70), (2, 75), (3, 40), (4, 41)] [0, 1, 0, 0] Map.empty"
  have 1: "snd (create_reduced_contacts_with_group_types ?pd [] [3, 4] ''LTCF'' 20 [])
             = Raised ValueError"
    using create_reduced_raises_iff [of ?pd "[]" "[3, 4]" "''LTCF''" 20 "[]"] by simp
  have 2: "fst (create_reduced_contacts_with_group_types ?pd [1, 2] [3, 4] ''LTCF'' 1 []) = ?pd"
    using create_reduced_raises_iff [of ?pd "[1, 2]" "[3, 4]" "''LTCF''" 1 "[]"] by simp
  have 3: "snd (create_reduced_contacts_with_group_types ?pd [1, 2] [3, 4] ''LTCF'' 2
                  [1, 0, 0, 0, 0, 1, 0, 0, 0, 0, 0, 0]) = Done [0, 0, 0]"
    by code_simp
  have 4: "snd (create_reduced_contacts_with_group_types ?pd [1, 2] [3, 4] ''LTCF'' 2
                  [1, 0, 0, 0, 0, 1, 0, 0, 0, 0, 0, 0]) \<noteq> Raised ValueError"
    using create_reduced_raises_iff [of ?pd "[1, 2]" "[3, 4]" "''LTCF''" 2
        "[1, 0, 0, 0, 0, 1, 0, 0, 0, 0, 0, 0]"] by simp
  have 5: "snd (create_reduced_contacts_with_group_types ?pd [1, 2] [3, 9] ''LTCF'' 20 [])
             = Raised KeyError"
    by code_simp
  have 6: "\<not> set [1, 2] \<union> set [3, 9] \<subseteq> dom ?pd"
    using create_reduced_raises_iff [of ?pd "[1, 2]" "[3, 9]" "''LTCF''" 20 "[]"] 5 by blast
  from 1 2 3 4 5 6 show ?thesis by blast
qed

text \<open>
  Claim C4 as stated fails: two persons 1 and 2, groups \<open>[1, 2]\<close> and \<open>[9]\<close>, average degree
  20.  Neither group is empty and the degree is not below 2, yet the call raises
  (\<open>KeyError\<close>, at the edge between 1 and 9 of line 382, there being no person 9), and it
  does so after lines 305-306 and 381-382 have written: person 1, whose contact set for
  the setting was empty, now has the contacts 2 and 9.
\<close>

theorem create_reduced_raises_after_writes:
  "[1::nat, 2] \<noteq> [] \<and> [9::nat] \<noteq> [] \<and> \<not> (20::int) < 2 \<and>
   snd (create_reduced_contacts_with_group_types
          (init_popdict True [(1, 70), (2, 75)] [0, 1] Map.empty) [1, 2] [9] ''LTCF'' 20 [])
     = Raised KeyError \<and>
   contact_set (init_popdict True [(1, 70), (2, 75)] [0, 1] Map.empty) 1 ''LTCF'' = {} \<and>
   contact_set
     (fst (create_reduced_contacts_with_group_types
             (init_popdict True [(1, 70), (2, 75)] [0, 1] Map.empty) [1, 2] [9] ''LTCF'' 20 []))
     1 ''LTCF'' = {2, 9}"
  by code_simp

text \<open>
  Claim C5.  With both groups non-empty, an average degree \<open>d \<ge> 2\<close>, a combined size
  \<open>n \<le> d\<close> and every member a key of \<open>popdict\<close>, the call returns without a draw and the
  contact set of every member for the setting contains all the other members.
\<close>

theorem create_reduced_complete_graph:
  assumes "group_1 \<noteq> []" "group_2 \<noteq> []" "2 \<le> average_degree"
    and "int (length group_1 + length group_2) \<le> average_degree"
    and "set group_1 \<union> set group_2 \<subseteq> dom popdict"
  shows "\<exists>popdict'.
           create_reduced_contacts_with_group_types popdict group_1 group_2 setting
             average_degree tp = (popdict', Done tp) \<and>
           (\<forall>i<length (group_1 @ group_2). \<forall>j<length (group_1 @ group_2). i \<noteq> j \<longrightarrow>
              (group_1 @ group_2) ! j \<in> contact_set popdict' ((group_1 @ group_2) ! i) setting)"
proof -
  let ?n = "length group_1 + length group_2"
  let ?grp = "group_1 @ group_2"
  let ?pd1 = "setdefault_setting setting popdict"
  have bg: "build_graph (length group_1) (length group_2) average_degree tp
              = Done (complete_graph ?n, tp)"
    using assms(4) by (simp add: build_graph_def)
  have m1: "set ?grp \<subseteq> dom ?pd1" using assms(5) by (simp add: setdefault_setting_dom)
  have e: "\<forall>(i, j)\<in>set (complete_graph ?n). i < length ?grp \<and> j < length ?grp"
    by (auto simp: set_complete_graph)
  from add_edges_ok[OF m1 setdefault_setting_has e] obtain pd2 where
    a: "add_edges ?grp setting (complete_graph ?n) ?pd1 = (pd2, Done ())"
       "\<forall>u k'. contact_set pd2 u k' =
          (if k' = setting then contact_set ?pd1 u k' \<union> edge_contacts ?grp (complete_graph ?n) u
           else contact_set ?pd1 u k')"
    by blast
  have r: "create_reduced_contacts_with_group_types popdict group_1 group_2 setting
             average_degree tp = (pd2, Done tp)"
    using assms(1,2,3) bg a(1) by (simp add: create_reduced_contacts_with_group_types_def Let_def)
  have "?grp ! j \<in> contact_set pd2 (?grp ! i) setting"
    if "i < length ?grp" "j < length ?grp" "i \<noteq> j" for i j
  proof -
    have "(i, j) \<in> set (complete_graph ?n) \<or> (j, i) \<in> set (complete_graph ?n)"
      using that by (auto simp: set_complete_graph)
    then have "?grp ! j \<in> edge_contacts ?grp (complete_graph ?n) (?grp ! i)"
      unfolding edge_contacts_def by blast
    then show ?thesis using a(2) by simp
  qed
  with r show ?thesis by blast
qed

theorem create_reduced_complete_graph_witness:
  "[1::nat, 2] \<noteq> [] \<and> [3::nat] \<noteq> [] \<and> (2::int) \<le> 20 \<and> int (length [1::nat, 2] + length [3::nat]) \<le> 20 \<and>
   set [1, 2] \<union> set [3]
     \<subseteq> dom (init_popdict True [(1, 70), (2, 75), (3, 40)] [0, 1, 0] Map.empty) \<and>
   snd (create_reduced_contacts_with_group_types
          (init_popdict True [(1, 70), (2, 75), (3, 40)] [0, 1, 0] Map.empty)
          [1, 2] [3] ''LTCF'' 20 []) = Done [] \<and>
   3 \<in> contact_set
         (fst (create_reduced_contacts_with_group_types
                 (init_popdict True [(1, 70), (2, 75), (3, 40)] [0, 1, 0] Map.empty)
                 [1, 2] [3] ''LTCF'' 20 [])) 1 ''LTCF'' \<and>
   contact_set
         (fst (create_reduced_contacts_with_group_types
                 (init_popdict True [(1, 70), (2, 75), (3, 40)] [0, 1, 0] Map.empty)
                 [1, 2] [3] ''LTCF'' 20 [])) 2 ''LTCF'' = {1, 3}"
proof -
  let ?pd = "init_popdict True [(1, 70), (2, 75), (3, 40)] [0, 1, 0] Map.empty"
  have h: "[1::nat, 2] \<noteq> []" "[3::nat] \<noteq> []" "(2::int) \<le> 20"
    "int (length [1::nat, 2] + length [3::nat]) \<le> 20" "set [1, 2] \<union> set [3] \<subseteq> dom ?pd"
    by simp_all
  from create_reduced_complete_graph [OF h, of "''LTCF''" "[]"] obtain pd' where
    r: "create_reduced_contacts_with_group_types ?pd [1, 2] [3] ''LTCF'' 20 [] = (pd', Done [])"
    and c: "\<forall>i<length ([1::nat, 2] @ [3]). \<forall>j<length ([1::nat, 2] @ [3]). i \<noteq> j \<longrightarrow>
              ([1, 2] @ [3]) ! j \<in> contact_set pd' (([1, 2] @ [3]) ! i) ''LTCF''"
    by blast
  have "(0::nat) < length ([1::nat, 2] @ [3]) \<and> (2::nat) < length ([1::nat, 2] @ [3]) \<and> (0::nat) \<noteq> 2"
    by simp
  with c have "([1, 2] @ [3]) ! 2 \<in> contact_set pd' (([1, 2] @ [3]) ! 0) ''LTCF''" by blast
  then have 1: "3 \<in> contact_set (fst (create_reduced_contacts_with_group_types ?pd [1, 2] [3]
                      ''LTCF'' 20 [])) 1 ''LTCF''"
    using r by simp
  have 2: "snd (create_reduced_contacts_with_group_types ?pd [1, 2] [3] ''LTCF'' 20 []) = Done []"
    using r by simp
  have 3: "contact_set (fst (create_reduced_contacts_with_group_types ?pd [1, 2] [3]
                      ''LTCF'' 20 [])) 2 ''LTCF'' = {1, 3}"
    by code_simp
  from h 1 2 3 show ?thesis by blast
qed

section \<open>Properties of make_contacts_from_microstructure_objects\<close>

lemma bind_run_Done:
  "bind_run m f = Done y \<longleftrightarrow> (\<exists>x. m = Done x \<and> f x = Done y)"
  by (cases m) (simp_all add: bind_run_def)

lemma same_layer_refl: "same_layer k pd pd"
  by (simp add: same_layer_def)

lemma same_layer_trans: "same_layer k a b \<Longrightarrow> same_layer k b c \<Longrightarrow> same_layer k a c"
  by (simp add: same_layer_def)

lemma layer_empty_same: "layer_empty pd k \<Longrightarrow> same_layer k pd pd' \<Longrightarrow> layer_empty pd' k"
  unfolding layer_empty_def same_layer_def
proof (intro allI impI)
  fix uid p
  assume a: "\<forall>uid p. pd uid = Some p \<longrightarrow> contacts p k = Some {}"
    and s: "\<forall>uid. map_option (\<lambda>p. contacts p k) (pd' uid) = map_option (\<lambda>p. contacts p k) (pd uid)"
    and p: "pd' uid = Some p"
  from s p have "map_option (\<lambda>p. contacts p k) (pd uid) = Some (contacts p k)" by (metis option.simps(9))
  then obtain q where "pd uid = Some q" "contacts q k = contacts p k" by auto
  with a show "contacts p k = Some {}" by auto
qed

lemma contact_set_same: "same_layer k pd pd' \<Longrightarrow> contact_set pd' u k = contact_set pd u k"
proof -
  assume "same_layer k pd pd'"
  then have "map_option (\<lambda>p. contacts p k) (pd' u) = map_option (\<lambda>p. contacts p k) (pd u)"
    by (simp add: same_layer_def)
  then show ?thesis by (cases "pd u"; cases "pd' u") (auto simp: contact_set_def)
qed

lemma update_person_same:
  "update_person f uid pd = Done pd' \<Longrightarrow> (\<And>p. contacts (f p) k = contacts p k) \<Longrightarrow>
     same_layer k pd pd'"
  by (auto simp: update_person_def same_layer_def split: option.splits)

lemma for_each_same:
  assumes "for_each xs body pd = Done pd'"
    and "\<And>x t t'. x \<in> set xs \<Longrightarrow> body x t = Done t' \<Longrightarrow> same_layer k t t'"
  shows "same_layer k pd pd'"
  by (rule for_each_invariant[where P = "same_layer k pd", OF assms(1) same_layer_refl])
     (use assms(2) same_layer_trans in blast)

lemma for_each_same_fst:
  assumes "for_each xs body s = Done s'"
    and "\<And>x t t'. x \<in> set xs \<Longrightarrow> body x t = Done t' \<Longrightarrow> same_layer k (fst t) (fst t')"
  shows "same_layer k (fst s) (fst s')"
  by (rule for_each_invariant[where P = "\<lambda>t. same_layer k (fst s) (fst t)", OF assms(1) same_layer_refl])
     (use assms(2) same_layer_trans in blast)

lemma set_contacts_other: "k' \<noteq> k \<Longrightarrow> contacts (set_contacts k s p) k' = contacts p k'"
  by (simp add: set_contacts_def)

lemma add_contact_same: "add_contact k c uid pd = Done pd' \<Longrightarrow> k' \<noteq> k \<Longrightarrow> same_layer k' pd pd'"
  by (auto simp: add_contact_def same_layer_def set_contacts_def split: option.splits)

lemma setdefault_setting_same: "k' \<noteq> k \<Longrightarrow> same_layer k' pd (setdefault_setting k pd)"
  unfolding same_layer_def
proof
  fix uid assume "k' \<noteq> k"
  then show "map_option (\<lambda>p. contacts p k') (setdefault_setting k pd uid)
               = map_option (\<lambda>p. contacts p k') (pd uid)"
    by (cases "pd uid")
       (auto simp: setdefault_setting_def set_contacts_def split: option.splits)
qed

lemma add_edges_same: "add_edges grp k E pd = (pd', r) \<Longrightarrow> k' \<noteq> k \<Longrightarrow> same_layer k' pd pd'"
proof (induction E arbitrary: pd)
  case Nil
  then show ?case by (simp add: same_layer_refl)
next
  case (Cons e E)
  obtain i j where e: "e = (i, j)" by (cases e)
  show ?case
  proof (cases "length grp \<le> i \<or> length grp \<le> j")
    case True
    with Cons.prems e show ?thesis by (auto simp: same_layer_refl)
  next
    case False
    show ?thesis
    proof (cases "add_contact k (grp ! j) (grp ! i) pd")
      case (Done pd1)
      note s1 = add_contact_same[OF Done Cons.prems(2)]
      show ?thesis
      proof (cases "add_contact k (grp ! i) (grp ! j) pd1")
        case d2: (Done pd2)
        note s2 = add_contact_same[OF d2 Cons.prems(2)]
        have "add_edges grp k E pd2 = (pd', r)" using Cons.prems(1) e False Done d2 by simp
        from Cons.IH[OF this Cons.prems(2)] s1 s2 show ?thesis
          by (blast intro: same_layer_trans)
      next
        case (Raised x)
        with Cons.prems(1) e False Done s1 show ?thesis by auto
      next
        case NoDraws
        with Cons.prems(1) e False Done s1 show ?thesis by auto
      qed
    next
      case (Raised x)
      with Cons.prems(1) e False show ?thesis by (auto simp: same_layer_refl)
    next
      case NoDraws
      with Cons.prems(1) e False show ?thesis by (auto simp: same_layer_refl)
    qed
  qed
qed

lemma create_reduced_same:
  assumes "create_reduced_contacts_with_group_types pd g1 g2 k d tp = (pd', r)" "k' \<noteq> k"
  shows "same_layer k' pd pd'"
proof (cases "g1 = [] \<or> g2 = [] \<or> d < 2")
  case True
  then have "create_reduced_contacts_with_group_types pd g1 g2 k d tp = (pd, Raised ValueError)"
    by (rule create_reduced_guard)
  with assms(1) show ?thesis by (simp add: same_layer_refl)
next
  case False
  note s0 = setdefault_setting_same[OF assms(2), of pd]
  show ?thesis
  proof (cases "build_graph (length g1) (length g2) d tp")
    case (Done s)
    obtain G tp1 where s: "s = (G, tp1)" by (cases s)
    obtain pd2 r2 where a: "add_edges (g1 @ g2) k G (setdefault_setting k pd) = (pd2, r2)"
      by (cases "add_edges (g1 @ g2) k G (setdefault_setting k pd)")
    have "pd' = pd2" using assms(1) False Done s a
      by (cases r2) (auto simp: create_reduced_contacts_with_group_types_def Let_def)
    with add_edges_same[OF a assms(2)] s0 show ?thesis by (blast intro: same_layer_trans)
  next
    case (Raised x)
    with assms(1) False s0 show ?thesis
      by (auto simp: create_reduced_contacts_with_group_types_def Let_def)
  next
    case NoDraws
    with assms(1) False s0 show ?thesis
      by (auto simp: create_reduced_contacts_with_group_types_def Let_def)
  qed
qed

lemma layer_empty_init:
  "layer_empty pd ''C'' \<Longrightarrow> layer_empty (init_popdict b ages sexes pd) ''C''"
proof (induction b ages sexes pd rule: init_popdict.induct)
  case (1 use_ltcf uid a ages s sexes popdict)
  have "layer_empty (popdict(uid \<mapsto> new_person use_ltcf a s)) ''C''"
    using 1(2) by (auto simp: layer_empty_def new_person_def layer_keys_def)
  from 1(1)[OF this] show ?case by (simp only: init_popdict.simps)
qed simp_all

lemma mark_resident_same: "mark_resident nf uid pd = Done pd' \<Longrightarrow> same_layer k pd pd'"
  unfolding mark_resident_def by (erule update_person_same) simp

lemma mark_staff_same: "mark_staff nf uid pd = Done pd' \<Longrightarrow> same_layer k pd pd'"
  unfolding mark_staff_def by (erule update_person_same) simp

lemma facility_clique_same:
  "facility_clique f fs uid pd = Done pd' \<Longrightarrow> k \<noteq> ''LTCF'' \<Longrightarrow> same_layer k pd pd'"
  unfolding facility_clique_def by (erule update_person_same) (simp add: set_contacts_other)

lemma facility_step_same:
  assumes "facility_step r d fsu nff s = Done s'" "k \<noteq> ''LTCF''"
  shows "same_layer k (fst s) (fst s')"
proof -
  let ?nf = "fst nff" and ?f = "snd nff"
  let ?fs = "fsu ! ?nf"
  from assms(1) obtain pd1 pd2 where
    a: "for_each ?f (mark_resident ?nf) (fst s) = Done pd1" and
    b: "for_each ?fs (mark_staff ?nf) pd1 = Done pd2" and
    c: "(if r then
               (case create_reduced_contacts_with_group_types pd2 ?f ?fs
                       ''LTCF'' d (snd s) of
                  (popdict3, Raised e) \<Rightarrow> Raised e
                | (popdict3, NoDraws) \<Rightarrow> NoDraws
                | (popdict3, Done tp') \<Rightarrow> Done (popdict3, tp'))
             else
               bind_run (for_each ?f (facility_clique ?f ?fs) pd2)
                 (\<lambda>popdict3.
               bind_run (for_each ?fs (facility_clique ?f ?fs) popdict3)
                 (\<lambda>popdict4. Done (popdict4, snd s)))) = Done s'"
    by (auto simp: facility_step_def Let_def bind_run_Done split: if_splits)
  have s1: "same_layer k (fst s) pd1"
    by (rule for_each_same[OF a]) (rule mark_resident_same)
  have s2: "same_layer k pd1 pd2"
    by (rule for_each_same[OF b]) (rule mark_staff_same)
  have s3: "same_layer k pd2 (fst s')"
  proof (cases r)
    case True
    obtain pd3 res where cr: "create_reduced_contacts_with_group_types pd2 ?f ?fs ''LTCF'' d (snd s) = (pd3, res)"
      by (cases "create_reduced_contacts_with_group_types pd2 ?f ?fs ''LTCF'' d (snd s)")
    with c True have "fst s' = pd3" by (cases res) auto
    with create_reduced_same[OF cr assms(2)] show ?thesis by simp
  next
    case False
    with c obtain pd3 pd4 where
      x: "for_each ?f (facility_clique ?f ?fs) pd2 = Done pd3" and
      y: "for_each ?fs (facility_clique ?f ?fs) pd3 = Done pd4" and z: "s' = (pd4, snd s)"
      by (auto simp: bind_run_Done)
    have "same_layer k pd2 pd3"
      by (rule for_each_same[OF x]) (rule facility_clique_same[OF _ assms(2)])
    moreover have "same_layer k pd3 pd4"
      by (rule for_each_same[OF y]) (rule facility_clique_same[OF _ assms(2)])
    ultimately show ?thesis using z by (auto intro: same_layer_trans)
  qed
  from s1 s2 s3 show ?thesis by (blast intro: same_layer_trans)
qed

lemma household_step_same:
  assumes "household_step nh pd = Done pd'" "k \<noteq> ''H''"
  shows "same_layer k pd pd'"
proof (rule for_each_same[OF assms(1)[unfolded household_step_def]])
  fix x t t'
  assume "household_member (fst nh) (snd nh) x t = Done t'"
  then show "same_layer k t t'"
    unfolding household_member_def by (rule update_person_same) (simp add: set_contacts_other assms(2))
qed

lemma school_step_same:
  assumes "school_step sc tb nts nss s = Done s'" "schools_keep_layer sc k"
  shows "same_layer k (fst s) (fst s')"
proof -
  from assms(1) obtain staff s1 pd2 pd3 pd4 where
    a: "sc (snd nss) (tb ! fst nss) staff s = Done s1" and
    b: "for_each (snd nss) (update_person (\<lambda>p. p\<lparr>scid := Some (fst nss), sc_student := Some 1\<rparr>)) (fst s1) = Done pd2" and
    c: "for_each (tb ! fst nss) (update_person (\<lambda>p. p\<lparr>scid := Some (fst nss), sc_teacher := Some 1\<rparr>)) pd2 = Done pd3" and
    d: "for_each staff (update_person (\<lambda>p. p\<lparr>scid := Some (fst nss), sc_staff := Some 1\<rparr>)) pd3 = Done pd4" and
    e: "s' = (pd4, snd s1)"
    by (auto simp: school_step_def Let_def bind_run_Done split: if_splits)
  have "same_layer k (fst s) (fst s1)" using assms(2) a unfolding schools_keep_layer_def by blast
  moreover have "same_layer k (fst s1) pd2"
    by (rule for_each_same[OF b]) (erule update_person_same, simp)
  moreover have "same_layer k pd2 pd3"
    by (rule for_each_same[OF c]) (erule update_person_same, simp)
  moreover have "same_layer k pd3 pd4"
    by (rule for_each_same[OF d]) (erule update_person_same, simp)
  ultimately show ?thesis using e by (auto intro: same_layer_trans)
qed

lemma set_workplace_same:
  assumes "set_workplace codes nw uids uid pd = Done pd'" "k \<noteq> ''W''"
  shows "same_layer k pd pd'"
proof (cases codes)
  case None
  with assms(1) have "update_person (\<lambda>p. (set_contacts ''W'' uids p)\<lparr>wpid := Some nw\<rparr>) uid pd = Done pd'"
    by (simp add: set_workplace_def)
  then show ?thesis by (rule update_person_same) (simp add: set_contacts_other assms(2))
next
  case (Some cs)
  with assms(1) obtain pd1 where
    a: "update_person (\<lambda>p. (set_contacts ''W'' uids p)\<lparr>wpid := Some nw\<rparr>) uid pd = Done pd1" and
    b: "update_person (\<lambda>p. p\<lparr>wpindcode := Some (cs ! nw)\<rparr>) uid pd1 = Done pd'"
    by (auto simp: set_workplace_def bind_run_Done split: if_splits)
  have "same_layer k pd pd1"
    using a by (rule update_person_same) (simp add: set_contacts_other assms(2))
  moreover have "same_layer k pd1 pd'" using b by (rule update_person_same) simp
  ultimately show ?thesis by (rule same_layer_trans)
qed

lemma workplace_step_same:
  assumes "workplace_step codes nww pd = Done pd'" "k \<noteq> ''W''"
  shows "same_layer k pd pd'"
  by (rule for_each_same[OF assms(1)[unfolded workplace_step_def]])
     (rule set_workplace_same[OF _ assms(2)])

lemma trim_member_same:
  assumes "trim_member codes m nw wp uid s = Done s'" "k \<noteq> ''W''"
  shows "same_layer k (fst s) (fst s')"
proof -
  from assms(1) obtain uids pd' where "set_workplace codes nw uids uid (fst s) = Done pd'" "fst s' = pd'"
    by (auto simp: trim_member_def Let_def bind_run_Done split: if_splits)
  with set_workplace_same[OF _ assms(2)] show ?thesis by blast
qed

lemma trim_step_same:
  assumes "trim_step codes m nww s = Done s'" "k \<noteq> ''W''"
  shows "same_layer k (fst s) (fst s')"
  by (rule for_each_same_fst[OF assms(1)[unfolded trim_step_def]])
     (rule trim_member_same[OF _ assms(2)])

lemma pairing_step_same:
  assumes "pairing_step uid pd = Done pd'" "k \<noteq> ''W''"
  shows "same_layer k pd pd'"
proof -
  from assms(1) obtain p cs where
    "pd' = (\<lambda>c. if c \<in> cs
                 then map_option (\<lambda>q. set_contacts ''W'' (insert uid (the (contacts q ''W''))) q) (pd c)
                 else pd c)"
    by (auto simp: pairing_step_def split: option.splits if_splits)
  then show ?thesis using assms(2)
    by (auto simp: same_layer_def set_contacts_other option.map_comp comp_def)
qed

lemma workplace_layer_same:
  assumes "workplace_layer mc codes keys wps s = Done s'" "k \<noteq> ''W''"
  shows "same_layer k (fst s) (fst s')"
proof (cases mc)
  case None
  with assms(1) obtain pd' where
    a: "for_each (enumerate_list wps) (workplace_step codes) (fst s) = Done pd'" and b: "fst s' = pd'"
    by (auto simp: workplace_layer_def bind_run_Done)
  have "same_layer k (fst s) pd'"
    by (rule for_each_same[OF a]) (rule workplace_step_same[OF _ assms(2)])
  with b show ?thesis by simp
next
  case (Some m)
  with assms(1) obtain s1 pd' where
    a: "trimmed_workplaces codes (workplace_cap m div 2) wps s = Done s1" and
    b: "for_each keys pairing_step (fst s1) = Done pd'" and c: "fst s' = pd'"
    by (auto simp: workplace_layer_def bind_run_Done)
  have "same_layer k (fst s) (fst s1)"
    by (rule for_each_same_fst[OF a[unfolded trimmed_workplaces_def]])
       (rule trim_step_same[OF _ assms(2)])
  moreover have "same_layer k (fst s1) pd'"
    by (rule for_each_same[OF b]) (rule pairing_step_same[OF _ assms(2)])
  ultimately show ?thesis using c by (auto intro: same_layer_trans)
qed

lemma make_contacts_same:
  assumes run: "make_contacts_from_microstructure_objects school_contacts age_by_uid_dic
       homes_by_uids schools_by_uids teachers_by_uids non_teaching_staff_uids workplaces_by_uids
       facilities_by_uids facilities_staff_uids use_two_group_reduction average_LTCF_degree
       workplaces_by_industry_codes max_contacts tp = Done s'"
    and sc: "schools_keep_layer school_contacts k"
    and k: "k \<noteq> ''LTCF''" "k \<noteq> ''H''" "k \<noteq> ''W''"
  shows "same_layer k
           (init_popdict (facilities_by_uids \<noteq> None) age_by_uid_dic
              (map (\<lambda>r. r mod 2) (take (length age_by_uid_dic) tp)) Map.empty)
           (fst s')"
proof -
  let ?pd0 = "init_popdict (facilities_by_uids \<noteq> None) age_by_uid_dic
                (map (\<lambda>r. r mod 2) (take (length age_by_uid_dic) tp)) Map.empty"
  let ?s0 = "(?pd0, drop (length age_by_uid_dic) tp)"
  from run obtain s1 pd2 s3 where
    a: "(case facilities_by_uids of
                None \<Rightarrow> Done ?s0
              | Some facilities \<Rightarrow>
                  for_each (enumerate_list facilities)
                    (facility_step use_two_group_reduction average_LTCF_degree
                       facilities_staff_uids) ?s0) = Done s1" and
    b: "for_each (enumerate_list homes_by_uids) household_step (fst s1) = Done pd2" and
    c: "for_each (enumerate_list schools_by_uids)
          (school_step school_contacts teachers_by_uids non_teaching_staff_uids)
          (pd2, snd s1) = Done s3" and
    d: "workplace_layer max_contacts workplaces_by_industry_codes (map fst age_by_uid_dic)
             workplaces_by_uids s3 = Done s'"
  proof -
    have "\<not> length tp < length age_by_uid_dic"
      using run by (auto simp: make_contacts_from_microstructure_objects_def)
    with run show ?thesis
      unfolding make_contacts_from_microstructure_objects_def Let_def
      using that by (simp only: if_False bind_run_Done) blast
  qed
  have s1: "same_layer k ?pd0 (fst s1)"
  proof (cases facilities_by_uids)
    case None
    with a show ?thesis by (auto simp: same_layer_refl)
  next
    case (Some facilities)
    with a have f: "for_each (enumerate_list facilities)
                    (facility_step use_two_group_reduction average_LTCF_degree
                       facilities_staff_uids) ?s0 = Done s1" by simp
    have "same_layer k (fst ?s0) (fst s1)"
      by (rule for_each_same_fst[OF f]) (rule facility_step_same[OF _ k(1)])
    then show ?thesis by simp
  qed
  have s2: "same_layer k (fst s1) pd2"
    by (rule for_each_same[OF b]) (rule household_step_same[OF _ k(2)])
  have "same_layer k (fst (pd2, snd s1)) (fst s3)"
    by (rule for_each_same_fst[OF c]) (rule school_step_same[OF _ sc])
  then have s3: "same_layer k pd2 (fst s3)" by simp
  have s4: "same_layer k (fst s3) (fst s')" by (rule workplace_layer_same[OF d k(3)])
  from s1 s2 s3 s4 show ?thesis by (blast intro: same_layer_trans)
qed

lemma layer_empty_Map_empty: "layer_empty Map.empty k"
  by (simp add: layer_empty_def)

lemma school_clique_keeps_layer: "k \<noteq> ''S'' \<Longrightarrow> schools_keep_layer school_clique k"
  unfolding schools_keep_layer_def
proof (intro allI impI)
  fix students teachers staff s s'
  assume k: "k \<noteq> ''S''" and r: "school_clique students teachers staff s = Done s'"
  then obtain pd' where
    f: "for_each (students @ teachers @ staff)
          (\<lambda>uid. update_person (set_contacts ''S'' (set (students @ teachers @ staff) - {uid})) uid)
          (fst s) = Done pd'" and e: "s' = (pd', snd s)"
    by (auto simp: school_clique_def bind_run_Done)
  have "same_layer k (fst s) pd'"
    by (rule for_each_same[OF f]) (erule update_person_same, simp add: set_contacts_other k)
  with e show "same_layer k (fst s) (fst s')" by simp
qed

lemma contacts_view_Done:
  "contacts_view r uids k = Done v \<Longrightarrow>
     \<exists>popdict tp. r = Done (popdict, tp) \<and> v = map (\<lambda>uid. (uid, contact_set popdict uid k)) uids"
  by (cases r) (auto simp: contacts_view_def)

text \<open>
  Claim C10.  In the popdict returned by \<open>make_contacts_from_microstructure_objects\<close> every
  person carries a contact set for the community layer \<open>C\<close>, and that set is empty.  The
  school edges are made by helpers of \<open>schools.py\<close> that are not among the sources; they
  are taken not to touch the layer \<open>C\<close>.
\<close>

theorem make_contacts_community_layer_empty:
  assumes "make_contacts_from_microstructure_objects school_contacts age_by_uid_dic
       homes_by_uids schools_by_uids teachers_by_uids non_teaching_staff_uids workplaces_by_uids
       facilities_by_uids facilities_staff_uids use_two_group_reduction average_LTCF_degree
       workplaces_by_industry_codes max_contacts tp = Done (popdict, tp')"
    and "schools_keep_layer school_contacts ''C''"
  shows "layer_empty popdict ''C'' \<and> (\<forall>uid. contact_set popdict uid ''C'' = {})"
proof -
  have "layer_empty (init_popdict (facilities_by_uids \<noteq> None) age_by_uid_dic
              (map (\<lambda>r. r mod 2) (take (length age_by_uid_dic) tp)) Map.empty) ''C''"
    by (rule layer_empty_init[OF layer_empty_Map_empty])
  moreover have "same_layer ''C''
           (init_popdict (facilities_by_uids \<noteq> None) age_by_uid_dic
              (map (\<lambda>r. r mod 2) (take (length age_by_uid_dic) tp)) Map.empty)
           (fst (popdict, tp'))"
    by (rule make_contacts_same[OF assms]) simp_all
  ultimately have l: "layer_empty popdict ''C''" by (auto intro: layer_empty_same)
  then have "\<forall>uid. contact_set popdict uid ''C'' = {}"
    by (auto simp: layer_empty_def contact_set_def split: option.splits)
  with l show ?thesis by simp
qed

theorem make_contacts_community_layer_empty_witness:
  "contacts_view
     (make_contacts_from_microstructure_objects school_clique
        [(1, 40), (2, 41), (3, 10), (4, 12), (5, 35), (6, 80), (7, 30)]
        [[1, 2, 3, 4], [5]] [[3, 4]] [[5]] None [[1, 2, 5]] (Some [[6]]) [[7]]
        False 20 None (Some [(''W'', 4)]) [0, 1, 0, 1, 0, 1, 0, 0, 0, 0, 0, 0])
     [1, 2, 3, 4, 5, 6, 7] ''C''
     = Done [(1, {}), (2, {}), (3, {}), (4, {}), (5, {}), (6, {}), (7, {})] \<and>
   (\<exists>popdict tp'.
      make_contacts_from_microstructure_objects school_clique
        [(1, 40), (2, 41), (3, 10), (4, 12), (5, 35), (6, 80), (7, 30)]
        [[1, 2, 3, 4], [5]] [[3, 4]] [[5]] None [[1, 2, 5]] (Some [[6]]) [[7]]
        False 20 None (Some [(''W'', 4)]) [0, 1, 0, 1, 0, 1, 0, 0, 0, 0, 0, 0]
        = Done (popdict, tp') \<and>
      layer_empty popdict ''C'' \<and> contact_set popdict 3 ''C'' = {})"
proof -
  let ?r = "make_contacts_from_microstructure_objects school_clique
        [(1, 40), (2, 41), (3, 10), (4, 12), (5, 35), (6, 80), (7, 30)]
        [[1, 2, 3, 4], [5]] [[3, 4]] [[5]] None [[1, 2, 5]] (Some [[6]]) [[7]]
        False 20 None (Some [(''W'', 4)]) [0, 1, 0, 1, 0, 1, 0, 0, 0, 0, 0, 0]"
  have v: "contacts_view ?r [1, 2, 3, 4, 5, 6, 7] ''C''
             = Done [(1, {}), (2, {}), (3, {}), (4, {}), (5, {}), (6, {}), (7, {})]"
    by code_simp
  from contacts_view_Done[OF v] obtain popdict tp' where r: "?r = Done (popdict, tp')" by blast
  have sk: "schools_keep_layer school_clique ''C''" by (rule school_clique_keeps_layer) simp
  from make_contacts_community_layer_empty [OF r sk]
  have "layer_empty popdict ''C'' \<and> contact_set popdict 3 ''C'' = {}" by blast
  with v r show ?thesis by blast
qed

lemma contact_set_upd:
  "contact_set (pd(uid \<mapsto> p)) u k =
     (if u = uid then (case contacts p k of None \<Rightarrow> {} | Some s \<Rightarrow> s) else contact_set pd u k)"
  by (simp add: contact_set_def)

lemma update_person_no_self:
  assumes "update_person f uid pd = Done pd'" "no_self_contact pd"
    and "\<And>p k s. pd uid = Some p \<Longrightarrow> uid \<notin> contact_set pd uid k \<Longrightarrow>
           contacts (f p) k = Some s \<Longrightarrow> uid \<notin> s"
  shows "no_self_contact pd'"
proof -
  from assms(1) obtain p where p: "pd uid = Some p" "pd' = pd(uid \<mapsto> f p)"
    by (auto simp: update_person_def split: option.splits)
  show ?thesis unfolding no_self_contact_def
  proof (intro allI)
    fix u k
    show "u \<notin> contact_set pd' u k"
    proof (cases "u = uid")
      case True
      have "uid \<notin> contact_set pd uid k" using assms(2) by (simp add: no_self_contact_def)
      from assms(3)[OF p(1) this] True p(2) show ?thesis
        by (auto simp: contact_set_upd split: option.splits)
    next
      case False
      then show ?thesis using assms(2) p(2) by (simp add: contact_set_upd no_self_contact_def)
    qed
  qed
qed

lemma update_person_flag_no_self:
  assumes "update_person f uid pd = Done pd'" "no_self_contact pd"
    and "\<And>p. contacts (f p) = contacts p"
  shows "no_self_contact pd'"
proof (rule update_person_no_self[OF assms(1,2)])
  fix p k s
  assume "pd uid = Some p" "uid \<notin> contact_set pd uid k" "contacts (f p) k = Some s"
  then show "uid \<notin> s" using assms(3)[of p] by (auto simp: contact_set_def)
qed

lemma set_contacts_no_self:
  assumes "update_person (\<lambda>p. g (set_contacts k' S p)) uid pd = Done pd'" "no_self_contact pd"
    and "uid \<notin> S" and "\<And>p. contacts (g p) = contacts p"
  shows "no_self_contact pd'"
proof (rule update_person_no_self[OF assms(1,2)])
  fix p k s
  assume "pd uid = Some p" "uid \<notin> contact_set pd uid k" "contacts (g (set_contacts k' S p)) k = Some s"
  then show "uid \<notin> s" using assms(3,4)
    by (auto simp: contact_set_def set_contacts_def split: if_splits)
qed

lemma for_each_no_self:
  assumes "for_each xs body pd = Done pd'" "no_self_contact pd"
    and "\<And>x t t'. x \<in> set xs \<Longrightarrow> no_self_contact t \<Longrightarrow> body x t = Done t' \<Longrightarrow> no_self_contact t'"
  shows "no_self_contact pd'"
  by (rule for_each_invariant[where P = no_self_contact, OF assms(1,2)]) (rule assms(3))

lemma for_each_no_self_fst:
  assumes "for_each xs body s = Done s'" "no_self_contact (fst s)"
    and "\<And>x t t'. x \<in> set xs \<Longrightarrow> no_self_contact (fst t) \<Longrightarrow> body x t = Done t' \<Longrightarrow> no_self_contact (fst t')"
  shows "no_self_contact (fst s')"
  by (rule for_each_invariant[where P = "\<lambda>t. no_self_contact (fst t)", OF assms(1,2)]) (rule assms(3))

lemma add_contact_no_self:
  assumes "add_contact k c uid pd = Done pd'" "c \<noteq> uid" "no_self_contact pd"
  shows "no_self_contact pd'"
  unfolding no_self_contact_def
proof (intro allI)
  fix u k'
  show "u \<notin> contact_set pd' u k'"
    using add_contact_Done(2)[OF assms(1), of u k'] assms(2,3)
    by (auto simp: no_self_contact_def)
qed

lemma add_edges_no_self:
  "add_edges grp k E pd = (pd', r) \<Longrightarrow> distinct grp \<Longrightarrow>
   \<forall>(i, j)\<in>set E. i < length grp \<and> j < length grp \<and> i \<noteq> j \<Longrightarrow>
   no_self_contact pd \<Longrightarrow> no_self_contact pd'"
proof (induction E arbitrary: pd)
  case Nil
  then show ?case by simp
next
  case (Cons e E)
  obtain i j where e: "e = (i, j)" by (cases e)
  have ij: "i < length grp" "j < length grp" "i \<noteq> j" and
    rest: "\<forall>(i, j)\<in>set E. i < length grp \<and> j < length grp \<and> i \<noteq> j"
    using Cons.prems(3) e by auto
  have ne: "grp ! j \<noteq> grp ! i" "grp ! i \<noteq> grp ! j"
    using ij Cons.prems(2) by (auto simp: nth_eq_iff_index_eq)
  show ?case
  proof (cases "add_contact k (grp ! j) (grp ! i) pd")
    case (Done pd1)
    note n1 = add_contact_no_self[OF Done ne(1) Cons.prems(4)]
    show ?thesis
    proof (cases "add_contact k (grp ! i) (grp ! j) pd1")
      case d2: (Done pd2)
      note n2 = add_contact_no_self[OF d2 ne(2) n1]
      have "add_edges grp k E pd2 = (pd', r)" using Cons.prems(1) e ij Done d2 by simp
      from Cons.IH[OF this Cons.prems(2) rest n2] show ?thesis .
    next
      case (Raised x)
      with Cons.prems(1) e ij Done n1 show ?thesis by auto
    next
      case NoDraws
      with Cons.prems(1) e ij Done n1 show ?thesis by auto
    qed
  next
    case (Raised x)
    with Cons.prems(1,4) e ij show ?thesis by auto
  next
    case NoDraws
    with Cons.prems(1,4) e ij show ?thesis by auto
  qed
qed

lemma setdefault_setting_no_self:
  "no_self_contact pd \<Longrightarrow> no_self_contact (setdefault_setting k pd)"
  by (simp add: no_self_contact_def setdefault_setting_contact_set)

lemma create_reduced_no_self:
  assumes r: "create_reduced_contacts_with_group_types pd g1 g2 k d tp = (pd', res)"
    and dis: "distinct (g1 @ g2)" and n: "no_self_contact pd"
  shows "no_self_contact pd'"
proof (cases "g1 = [] \<or> g2 = [] \<or> d < 2")
  case True
  then have "create_reduced_contacts_with_group_types pd g1 g2 k d tp = (pd, Raised ValueError)"
    by (rule create_reduced_guard)
  with r n show ?thesis by simp
next
  case False
  then have d: "2 \<le> d" and l2: "0 < length g2" by auto
  note bg = build_graph_props[OF d l2, of "length g1" tp]
  note n0 = setdefault_setting_no_self[OF n, of k]
  show ?thesis
  proof (cases "build_graph (length g1) (length g2) d tp")
    case (Done s)
    obtain G tp1 where s: "s = (G, tp1)" by (cases s)
    have so: "simple_on (length g1 + length g2) G" using bg Done s by blast
    have e: "\<forall>(i, j)\<in>set G. i < length (g1 @ g2) \<and> j < length (g1 @ g2) \<and> i \<noteq> j"
      using so by (auto simp: simple_on_iff)
    obtain pd2 r2 where a: "add_edges (g1 @ g2) k G (setdefault_setting k pd) = (pd2, r2)"
      by (cases "add_edges (g1 @ g2) k G (setdefault_setting k pd)")
    have "pd' = pd2" using r False Done s a
      by (cases r2) (auto simp: create_reduced_contacts_with_group_types_def Let_def)
    with add_edges_no_self[OF a dis e n0] show ?thesis by simp
  next
    case (Raised x)
    with r False n0 show ?thesis
      by (auto simp: create_reduced_contacts_with_group_types_def Let_def)
  next
    case NoDraws
    with r False n0 show ?thesis
      by (auto simp: create_reduced_contacts_with_group_types_def Let_def)
  qed
qed

lemma contact_set_init:
  "(\<And>u k. contact_set pd u k = {}) \<Longrightarrow> contact_set (init_popdict b ages sexes pd) u k = {}"
proof (induction b ages sexes pd rule: init_popdict.induct)
  case (1 use_ltcf uid a ages s sexes popdict)
  have "\<And>u k. contact_set (popdict(uid \<mapsto> new_person use_ltcf a s)) u k = {}"
  proof -
    fix u :: nat and k :: string
    have "contacts (new_person use_ltcf a s) k = None \<or> contacts (new_person use_ltcf a s) k = Some {}"
      by (auto simp: new_person_def layer_keys_def)
    then show "contact_set (popdict(uid \<mapsto> new_person use_ltcf a s)) u k = {}"
      using 1(2)[of u k] by (auto simp: contact_set_upd)
  qed
  from 1(1)[OF this] show ?case by (simp only: init_popdict.simps)
qed simp_all

lemma no_self_init: "no_self_contact (init_popdict b ages sexes Map.empty)"
proof -
  have "contact_set (init_popdict b ages sexes Map.empty) u k = {}" for u k
    by (rule contact_set_init) (simp add: contact_set_def)
  then show ?thesis by (simp add: no_self_contact_def)
qed

lemma facility_step_no_self:
  assumes run: "facility_step r d fsu nff s = Done s'" and n: "no_self_contact (fst s)"
    and dis: "r \<Longrightarrow> distinct (snd nff @ fsu ! fst nff)"
  shows "no_self_contact (fst s')"
proof -
  let ?nf = "fst nff" and ?f = "snd nff"
  let ?fs = "fsu ! ?nf"
  from run obtain pd1 pd2 where
    a: "for_each ?f (mark_resident ?nf) (fst s) = Done pd1" and
    b: "for_each ?fs (mark_staff ?nf) pd1 = Done pd2" and
    c: "(if r then
               (case create_reduced_contacts_with_group_types pd2 ?f ?fs
                       ''LTCF'' d (snd s) of
                  (popdict3, Raised e) \<Rightarrow> Raised e
                | (popdict3, NoDraws) \<Rightarrow> NoDraws
                | (popdict3, Done tp') \<Rightarrow> Done (popdict3, tp'))
             else
               bind_run (for_each ?f (facility_clique ?f ?fs) pd2)
                 (\<lambda>popdict3.
               bind_run (for_each ?fs (facility_clique ?f ?fs) popdict3)
                 (\<lambda>popdict4. Done (popdict4, snd s)))) = Done s'"
    by (auto simp: facility_step_def Let_def bind_run_Done split: if_splits)
  have n1: "no_self_contact pd1"
  proof (rule for_each_no_self[OF a n])
    fix x t t' assume "no_self_contact t" "mark_resident ?nf x t = Done t'"
    from this(2)[unfolded mark_resident_def] this(1) show "no_self_contact t'"
      by (rule update_person_flag_no_self) simp
  qed
  have n2: "no_self_contact pd2"
  proof (rule for_each_no_self[OF b n1])
    fix x t t' assume "no_self_contact t" "mark_staff ?nf x t = Done t'"
    from this(2)[unfolded mark_staff_def] this(1) show "no_self_contact t'"
      by (rule update_person_flag_no_self) simp
  qed
  have cl: "no_self_contact t'"
    if "facility_clique ?f ?fs x t = Done t'" "no_self_contact t" for x t t'
    using that(1)[unfolded facility_clique_def] that(2)
    by (rule set_contacts_no_self[where g = "\<lambda>p. p"]) simp_all
  show ?thesis
  proof (cases r)
    case True
    obtain pd3 res where cr: "create_reduced_contacts_with_group_types pd2 ?f ?fs ''LTCF'' d (snd s) = (pd3, res)"
      by (cases "create_reduced_contacts_with_group_types pd2 ?f ?fs ''LTCF'' d (snd s)")
    with c True have "fst s' = pd3" by (cases res) auto
    with create_reduced_no_self[OF cr dis[OF True] n2] show ?thesis by simp
  next
    case False
    with c obtain pd3 pd4 where
      x: "for_each ?f (facility_clique ?f ?fs) pd2 = Done pd3" and
      y: "for_each ?fs (facility_clique ?f ?fs) pd3 = Done pd4" and z: "s' = (pd4, snd s)"
      by (auto simp: bind_run_Done)
    have "no_self_contact pd3" by (rule for_each_no_self[OF x n2]) (rule cl)
    then have "no_self_contact pd4" by (rule for_each_no_self[OF y]) (rule cl)
    with z show ?thesis by simp
  qed
qed

lemma household_step_no_self:
  assumes "household_step nh pd = Done pd'" "no_self_contact pd"
  shows "no_self_contact pd'"
proof (rule for_each_no_self[OF assms(1)[unfolded household_step_def] assms(2)])
  fix x t t'
  assume "no_self_contact t" "household_member (fst nh) (snd nh) x t = Done t'"
  from this(2)[unfolded household_member_def] this(1) show "no_self_contact t'"
    by (rule set_contacts_no_self[where g = "\<lambda>p. p\<lparr>hhid := Some (fst nh)\<rparr>"]) simp_all
qed

lemma school_step_no_self:
  assumes "school_step sc tb nts nss s = Done s'" "schools_keep_no_self sc"
    and n: "no_self_contact (fst s)"
  shows "no_self_contact (fst s')"
proof -
  from assms(1) obtain staff s1 pd2 pd3 pd4 where
    a: "sc (snd nss) (tb ! fst nss) staff s = Done s1" and
    b: "for_each (snd nss) (update_person (\<lambda>p. p\<lparr>scid := Some (fst nss), sc_student := Some 1\<rparr>)) (fst s1) = Done pd2" and
    c: "for_each (tb ! fst nss) (update_person (\<lambda>p. p\<lparr>scid := Some (fst nss), sc_teacher := Some 1\<rparr>)) pd2 = Done pd3" and
    d: "for_each staff (update_person (\<lambda>p. p\<lparr>scid := Some (fst nss), sc_staff := Some 1\<rparr>)) pd3 = Done pd4" and
    e: "s' = (pd4, snd s1)"
    by (auto simp: school_step_def Let_def bind_run_Done split: if_splits)
  have "no_self_contact (fst s1)" using assms(2) a n unfolding schools_keep_no_self_def by blast
  then have "no_self_contact pd2"
    by (rule for_each_no_self[OF b]) (rule update_person_flag_no_self, assumption+, simp)
  then have "no_self_contact pd3"
    by (rule for_each_no_self[OF c]) (rule update_person_flag_no_self, assumption+, simp)
  then have "no_self_contact pd4"
    by (rule for_each_no_self[OF d]) (rule update_person_flag_no_self, assumption+, simp)
  with e show ?thesis by simp
qed

lemma set_workplace_no_self:
  assumes "set_workplace codes nw uids uid pd = Done pd'" "no_self_contact pd" "uid \<notin> uids"
  shows "no_self_contact pd'"
proof (cases codes)
  case None
  with assms(1) have "update_person (\<lambda>p. (set_contacts ''W'' uids p)\<lparr>wpid := Some nw\<rparr>) uid pd = Done pd'"
    by (simp add: set_workplace_def)
  then show ?thesis using assms(2,3)
    by (rule set_contacts_no_self[where g = "\<lambda>p. p\<lparr>wpid := Some nw\<rparr>"]) simp
next
  case (Some cs)
  with assms(1) obtain pd1 where
    a: "update_person (\<lambda>p. (set_contacts ''W'' uids p)\<lparr>wpid := Some nw\<rparr>) uid pd = Done pd1" and
    b: "update_person (\<lambda>p. p\<lparr>wpindcode := Some (cs ! nw)\<rparr>) uid pd1 = Done pd'"
    by (auto simp: set_workplace_def bind_run_Done split: if_splits)
  have "no_self_contact pd1" using a assms(2,3)
    by (rule set_contacts_no_self[where g = "\<lambda>p. p\<lparr>wpid := Some nw\<rparr>"]) simp
  with b show ?thesis by (rule update_person_flag_no_self) simp
qed

lemma workplace_step_no_self:
  assumes "workplace_step codes nww pd = Done pd'" "no_self_contact pd"
  shows "no_self_contact pd'"
proof (rule for_each_no_self[OF assms(1)[unfolded workplace_step_def] assms(2)])
  fix x t t'
  assume "no_self_contact t"
    "set_workplace codes (fst nww) (set (snd nww) - {x}) x t = Done t'"
  from set_workplace_no_self[OF this(2,1)] show "no_self_contact t'" by simp
qed

lemma choice_without_replacement_subset:
  "choice_without_replacement n a tp = Done (xs, tp') \<Longrightarrow> set xs \<subseteq> set a"
proof (induction n arbitrary: a tp xs)
  case 0
  then show ?case by simp
next
  case (Suc n)
  from Suc.prems obtain x tp1 ys where
    c: "np_random_choice a tp = Done (x, tp1)" and
    r: "choice_without_replacement n (remove1 x a) tp1 = Done (ys, tp')" and xs: "xs = x # ys"
    by (auto split: run.splits)
  from c have "x \<in> set a" by (auto simp: np_random_choice_def split: if_splits list.splits)
  moreover from Suc.IH[OF r] have "set ys \<subseteq> set a" using set_remove1_subset by fastforce
  ultimately show ?case using xs by simp
qed

lemma trim_member_no_self:
  assumes "trim_member codes m nw wp uid s = Done s'" "no_self_contact (fst s)"
  shows "no_self_contact (fst s')"
proof -
  let ?uids = "removeAll uid (remdups wp)"
  have "\<exists>uids pd'. set_workplace codes nw uids uid (fst s) = Done pd' \<and> fst s' = pd' \<and>
          uids \<subseteq> set ?uids"
  proof (cases "int (length ?uids) > m")
    case True
    with assms(1) obtain sampled tp' pd' where
      c: "choice_without_replacement (nat m) ?uids (snd s) = Done (sampled, tp')" and
      w: "set_workplace codes nw (set sampled) uid (fst s) = Done pd'" and e: "s' = (pd', tp')"
      by (auto simp: trim_member_def Let_def bind_run_Done split: if_splits)
    from choice_without_replacement_subset[OF c] w e show ?thesis by auto
  next
    case False
    with assms(1) obtain pd' where
      "set_workplace codes nw (set ?uids) uid (fst s) = Done pd'" "s' = (pd', snd s)"
      by (auto simp: trim_member_def Let_def bind_run_Done split: if_splits)
    then show ?thesis by auto
  qed
  then obtain uids pd' where
    w: "set_workplace codes nw uids uid (fst s) = Done pd'" and e: "fst s' = pd'" and
    u: "uids \<subseteq> set ?uids" by blast
  have "uid \<notin> uids" using u by auto
  from set_workplace_no_self[OF w assms(2) this] e show ?thesis by simp
qed

lemma trim_step_no_self:
  assumes "trim_step codes m nww s = Done s'" "no_self_contact (fst s)"
  shows "no_self_contact (fst s')"
  by (rule for_each_no_self_fst[OF assms(1)[unfolded trim_step_def] assms(2)])
     (rule trim_member_no_self)

lemma pairing_step_no_self:
  assumes "pairing_step uid pd = Done pd'" "no_self_contact pd"
  shows "no_self_contact pd'"
proof -
  from assms(1) obtain p cs where
    p: "pd uid = Some p" "contacts p ''W'' = Some cs" and
    pd': "pd' = (\<lambda>c. if c \<in> cs
                 then map_option (\<lambda>q. set_contacts ''W'' (insert uid (the (contacts q ''W''))) q) (pd c)
                 else pd c)" and
    ok: "\<forall>c\<in>cs. \<exists>q. pd c = Some q \<and> contacts q ''W'' \<noteq> None"
    by (auto simp: pairing_step_def split: option.splits if_splits)
  have "uid \<notin> contact_set pd uid ''W''" using assms(2) by (simp add: no_self_contact_def)
  then have un: "uid \<notin> cs" using p by (simp add: contact_set_def)
  show ?thesis unfolding no_self_contact_def
  proof (intro allI)
    fix u k
    have old: "u \<notin> contact_set pd u k" using assms(2) by (simp add: no_self_contact_def)
    show "u \<notin> contact_set pd' u k"
    proof (cases "u \<in> cs")
      case False
      with old pd' show ?thesis by (simp add: contact_set_def)
    next
      case True
      with ok obtain q s where q: "pd u = Some q" "contacts q ''W'' = Some s" by auto
      have "u \<noteq> uid" using True un by auto
      with True q old pd' show ?thesis
        by (auto simp: contact_set_def set_contacts_def split: if_splits)
    qed
  qed
qed

lemma workplace_layer_no_self:
  assumes "workplace_layer mc codes keys wps s = Done s'" "no_self_contact (fst s)"
  shows "no_self_contact (fst s')"
proof (cases mc)
  case None
  with assms(1) obtain pd' where
    a: "for_each (enumerate_list wps) (workplace_step codes) (fst s) = Done pd'" and b: "fst s' = pd'"
    by (auto simp: workplace_layer_def bind_run_Done)
  have "no_self_contact pd'"
    by (rule for_each_no_self[OF a assms(2)]) (rule workplace_step_no_self)
  with b show ?thesis by simp
next
  case (Some m)
  with assms(1) obtain s1 pd' where
    a: "trimmed_workplaces codes (workplace_cap m div 2) wps s = Done s1" and
    b: "for_each keys pairing_step (fst s1) = Done pd'" and c: "fst s' = pd'"
    by (auto simp: workplace_layer_def bind_run_Done)
  have "no_self_contact (fst s1)"
    by (rule for_each_no_self_fst[OF a[unfolded trimmed_workplaces_def] assms(2)])
       (rule trim_step_no_self)
  then have "no_self_contact pd'"
    by (rule for_each_no_self[OF b]) (rule pairing_step_no_self)
  with c show ?thesis by simp
qed

lemma enumerate_list_nth:
  "x \<in> set (enumerate_list xs) \<Longrightarrow> fst x < length xs \<and> snd x = xs ! fst x"
  by (auto simp: enumerate_list_def in_set_zip)

lemma make_contacts_no_self:
  assumes run: "make_contacts_from_microstructure_objects school_contacts age_by_uid_dic
       homes_by_uids schools_by_uids teachers_by_uids non_teaching_staff_uids workplaces_by_uids
       facilities_by_uids facilities_staff_uids use_two_group_reduction average_LTCF_degree
       workplaces_by_industry_codes max_contacts tp = Done s'"
    and sc: "schools_keep_no_self school_contacts"
    and fac: "\<And>facilities nf. use_two_group_reduction \<Longrightarrow> facilities_by_uids = Some facilities \<Longrightarrow>
                nf < length facilities \<Longrightarrow> distinct (facilities ! nf @ facilities_staff_uids ! nf)"
  shows "no_self_contact (fst s')"
proof -
  let ?pd0 = "init_popdict (facilities_by_uids \<noteq> None) age_by_uid_dic
                (map (\<lambda>r. r mod 2) (take (length age_by_uid_dic) tp)) Map.empty"
  let ?s0 = "(?pd0, drop (length age_by_uid_dic) tp)"
  from run obtain s1 pd2 s3 where
    a: "(case facilities_by_uids of
                None \<Rightarrow> Done ?s0
              | Some facilities \<Rightarrow>
                  for_each (enumerate_list facilities)
                    (facility_step use_two_group_reduction average_LTCF_degree
                       facilities_staff_uids) ?s0) = Done s1" and
    b: "for_each (enumerate_list homes_by_uids) household_step (fst s1) = Done pd2" and
    c: "for_each (enumerate_list schools_by_uids)
          (school_step school_contacts teachers_by_uids non_teaching_staff_uids)
          (pd2, snd s1) = Done s3" and
    d: "workplace_layer max_contacts workplaces_by_industry_codes (map fst age_by_uid_dic)
             workplaces_by_uids s3 = Done s'"
  proof -
    have "\<not> length tp < length age_by_uid_dic"
      using run by (auto simp: make_contacts_from_microstructure_objects_def)
    with run show ?thesis
      unfolding make_contacts_from_microstructure_objects_def Let_def
      using that by (simp only: if_False bind_run_Done) blast
  qed
  have n0: "no_self_contact (fst ?s0)" by (simp add: no_self_init)
  have n1: "no_self_contact (fst s1)"
  proof (cases facilities_by_uids)
    case None
    with a n0 show ?thesis by auto
  next
    case (Some facilities)
    with a have f: "for_each (enumerate_list facilities)
                    (facility_step use_two_group_reduction average_LTCF_degree
                       facilities_staff_uids) ?s0 = Done s1" by simp
    show ?thesis
    proof (rule for_each_no_self_fst[OF f n0])
      fix x t t'
      assume x: "x \<in> set (enumerate_list facilities)" and t: "no_self_contact (fst t)"
        and st: "facility_step use_two_group_reduction average_LTCF_degree
                   facilities_staff_uids x t = Done t'"
      have "distinct (snd x @ facilities_staff_uids ! fst x)" if "use_two_group_reduction"
        using fac[OF that Some, of "fst x"] enumerate_list_nth[OF x] by simp
      from facility_step_no_self[OF st t this] show "no_self_contact (fst t')" .
    qed
  qed
  have n2: "no_self_contact pd2"
    by (rule for_each_no_self[OF b n1]) (rule household_step_no_self)
  have "no_self_contact (fst s3)"
  proof (rule for_each_no_self_fst[OF c])
    show "no_self_contact (fst (pd2, snd s1))" using n2 by simp
  next
    fix x t t'
    assume "no_self_contact (fst t)"
      "school_step school_contacts teachers_by_uids non_teaching_staff_uids x t = Done t'"
    from school_step_no_self[OF this(2) sc this(1)] show "no_self_contact (fst t')" .
  qed
  then show ?thesis by (rule workplace_layer_no_self[OF d])
qed

lemma school_clique_keeps_no_self: "schools_keep_no_self school_clique"
  unfolding schools_keep_no_self_def
proof (intro allI impI)
  fix students teachers staff s s'
  assume r: "school_clique students teachers staff s = Done s'" and n: "no_self_contact (fst s)"
  then obtain pd' where
    f: "for_each (students @ teachers @ staff)
          (\<lambda>uid. update_person (set_contacts ''S'' (set (students @ teachers @ staff) - {uid})) uid)
          (fst s) = Done pd'" and e: "s' = (pd', snd s)"
    by (auto simp: school_clique_def bind_run_Done)
  have "no_self_contact pd'"
  proof (rule for_each_no_self[OF f n])
    fix x t t'
    assume "no_self_contact t"
      "update_person (set_contacts ''S'' (set (students @ teachers @ staff) - {x})) x t = Done t'"
    from this(2,1) show "no_self_contact t'"
      by (rule set_contacts_no_self[where g = "\<lambda>p. p"]) simp_all
  qed
  with e show "no_self_contact (fst s')" by simp
qed

text \<open>
  Claim C9, as amended.  When \<open>make_contacts_from_microstructure_objects\<close> returns, nobody
  is in their own contact set for any layer, provided that, where the two-group reduction
  is used, the residents and the staff of a facility are each listed once and no uid is
  both a resident and a member of the staff of the same facility.  Likewise a call to
  \<open>create_reduced_contacts_with_group_types\<close> with two disjoint groups, each listing
  its members once, leaves nobody in their own contact set if nobody was before
  (whether the call returns or raises).  The school edges are made by helpers of
  \<open>schools.py\<close> that are not among the sources; they are taken to make nobody their own
  contact.
\<close>

theorem make_contacts_no_self_contact:
  "(make_contacts_from_microstructure_objects school_contacts age_by_uid_dic
       homes_by_uids schools_by_uids teachers_by_uids non_teaching_staff_uids workplaces_by_uids
       facilities_by_uids facilities_staff_uids use_two_group_reduction average_LTCF_degree
       workplaces_by_industry_codes max_contacts tp = Done (popdict, tp') \<and>
    schools_keep_no_self school_contacts \<and>
    (use_two_group_reduction \<longrightarrow>
       (\<forall>facilities nf. facilities_by_uids = Some facilities \<and> nf < length facilities \<longrightarrow>
          distinct (facilities ! nf) \<and> distinct (facilities_staff_uids ! nf) \<and>
          set (facilities ! nf) \<inter> set (facilities_staff_uids ! nf) = {}))
    \<longrightarrow> (\<forall>uid k. uid \<notin> contact_set popdict uid k)) \<and>
   (distinct group_1 \<and> distinct group_2 \<and> set group_1 \<inter> set group_2 = {} \<and>
    (\<forall>uid k. uid \<notin> contact_set pd uid k)
    \<longrightarrow> (\<forall>uid k. uid \<notin> contact_set
            (fst (create_reduced_contacts_with_group_types pd group_1 group_2 setting
                    average_degree tp2)) uid k))"
proof (intro conjI impI)
  assume a: "make_contacts_from_microstructure_objects school_contacts age_by_uid_dic
       homes_by_uids schools_by_uids teachers_by_uids non_teaching_staff_uids workplaces_by_uids
       facilities_by_uids facilities_staff_uids use_two_group_reduction average_LTCF_degree
       workplaces_by_industry_codes max_contacts tp = Done (popdict, tp') \<and>
    schools_keep_no_self school_contacts \<and>
    (use_two_group_reduction \<longrightarrow>
       (\<forall>facilities nf. facilities_by_uids = Some facilities \<and> nf < length facilities \<longrightarrow>
          distinct (facilities ! nf) \<and> distinct (facilities_staff_uids ! nf) \<and>
          set (facilities ! nf) \<inter> set (facilities_staff_uids ! nf) = {}))"
  have "no_self_contact (fst (popdict, tp'))"
  proof (rule make_contacts_no_self)
    show "make_contacts_from_microstructure_objects school_contacts age_by_uid_dic
       homes_by_uids schools_by_uids teachers_by_uids non_teaching_staff_uids workplaces_by_uids
       facilities_by_uids facilities_staff_uids use_two_group_reduction average_LTCF_degree
       workplaces_by_industry_codes max_contacts tp = Done (popdict, tp')" using a by blast
    show "schools_keep_no_self school_contacts" using a by blast
    fix facilities nf
    assume "use_two_group_reduction" "facilities_by_uids = Some facilities" "nf < length facilities"
    with a show "distinct (facilities ! nf @ facilities_staff_uids ! nf)" by simp
  qed
  then show "\<forall>uid k. uid \<notin> contact_set popdict uid k" by (simp add: no_self_contact_def)
next
  assume b: "distinct group_1 \<and> distinct group_2 \<and> set group_1 \<inter> set group_2 = {} \<and>
    (\<forall>uid k. uid \<notin> contact_set pd uid k)"
  obtain pd' res where
    r: "create_reduced_contacts_with_group_types pd group_1 group_2 setting average_degree tp2
          = (pd', res)"
    by (cases "create_reduced_contacts_with_group_types pd group_1 group_2 setting average_degree tp2")
  have "distinct (group_1 @ group_2)" using b by simp
  moreover have "no_self_contact pd" using b by (simp add: no_self_contact_def)
  ultimately have "no_self_contact pd'" by (rule create_reduced_no_self[OF r])
  with r show "\<forall>uid k. uid \<notin> contact_set
            (fst (create_reduced_contacts_with_group_types pd group_1 group_2 setting
                    average_degree tp2)) uid k"
    by (simp add: no_self_contact_def)
qed

theorem make_contacts_no_self_contact_witness:
  "contacts_view
     (make_contacts_from_microstructure_objects school_clique
        [(1, 40), (2, 41), (3, 10), (4, 12), (5, 35), (6, 80), (7, 30)]
        [[1, 2, 3, 4], [5]] [[3, 4]] [[5]] None [[1, 2, 5]] (Some [[6]]) [[7]]
        True 20 None (Some [(''W'', 4)]) [0, 1, 0, 1, 0, 1, 0, 0, 0, 0, 0, 0])
     [1, 2, 3, 4, 5, 6, 7] ''LTCF''
     = Done [(1, {}), (2, {}), (3, {}), (4, {}), (5, {}), (6, {7}), (7, {6})] \<and>
   (\<exists>popdict tp'.
      make_contacts_from_microstructure_objects school_clique
        [(1, 40), (2, 41), (3, 10), (4, 12), (5, 35), (6, 80), (7, 30)]
        [[1, 2, 3, 4], [5]] [[3, 4]] [[5]] None [[1, 2, 5]] (Some [[6]]) [[7]]
        True 20 None (Some [(''W'', 4)]) [0, 1, 0, 1, 0, 1, 0, 0, 0, 0, 0, 0]
        = Done (popdict, tp') \<and>
      6 \<notin> contact_set popdict 6 ''LTCF'' \<and> 3 \<notin> contact_set popdict 3 ''S'') \<and>
   distinct [1::nat, 2] \<and> distinct [3::nat, 4] \<and> set [1::nat, 2] \<inter> set [3, 4] = {} \<and>
   1 \<notin> contact_set
          (fst (create_reduced_contacts_with_group_types
                  (init_popdict True [(1, 70), (2, 75), (3, 40), (4, 41)] [0, 1, 0, 0] Map.empty)
                  [1, 2] [3, 4] ''LTCF'' 2 [1, 0, 0, 0, 0, 1, 0, 0, 0, 0, 0, 0]))
          1 ''LTCF''"
proof -
  let ?r = "make_contacts_from_microstructure_objects school_clique
        [(1, 40), (2, 41), (3, 10), (4, 12), (5, 35), (6, 80), (7, 30)]
        [[1, 2, 3, 4], [5]] [[3, 4]] [[5]] None [[1, 2, 5]] (Some [[6]]) [[7]]
        True 20 None (Some [(''W'', 4)]) [0, 1, 0, 1, 0, 1, 0, 0, 0, 0, 0, 0]"
  let ?pd = "init_popdict True [(1, 70), (2, 75), (3, 40), (4, 41)] [0, 1, 0, 0] Map.empty"
  have v: "contacts_view ?r [1, 2, 3, 4, 5, 6, 7] ''LTCF''
             = Done [(1, {}), (2, {}), (3, {}), (4, {}), (5, {}), (6, {7}), (7, {6})]"
    by code_simp
  from contacts_view_Done[OF v] obtain popdict tp' where r: "?r = Done (popdict, tp')" by blast
  have fac: "True \<longrightarrow>
       (\<forall>facilities nf. Some [[6::nat]] = Some facilities \<and> nf < length facilities \<longrightarrow>
          distinct (facilities ! nf) \<and> distinct ([[7::nat]] ! nf) \<and>
          set (facilities ! nf) \<inter> set ([[7]] ! nf) = {})"
    by auto
  have d: "distinct [1::nat, 2] \<and> distinct [3::nat, 4] \<and> set [1::nat, 2] \<inter> set [3, 4] = {}"
    by simp
  have n: "\<forall>uid k. uid \<notin> contact_set ?pd uid k"
    using no_self_init[of True "[(1, 70), (2, 75), (3, 40), (4, 41)]" "[0, 1, 0, 0]"]
    by (simp add: no_self_contact_def)
  note t = make_contacts_no_self_contact [of school_clique
        "[(1, 40), (2, 41), (3, 10), (4, 12), (5, 35), (6, 80), (7, 30)]"
        "[[1, 2, 3, 4], [5]]" "[[3, 4]]" "[[5]]" None "[[1, 2, 5]]" "Some [[6]]" "[[7]]"
        True 20 None "Some [(''W'', 4)]" "[0, 1, 0, 1, 0, 1, 0, 0, 0, 0, 0, 0]" popdict tp'
        "[1, 2]" "[3, 4]" ?pd "''LTCF''" 2 "[1, 0, 0, 0, 0, 1, 0, 0, 0, 0, 0, 0]"]
  from t r school_clique_keeps_no_self fac
  have a: "6 \<notin> contact_set popdict 6 ''LTCF'' \<and> 3 \<notin> contact_set popdict 3 ''S''" by blast
  from t d n
  have b: "1 \<notin> contact_set
          (fst (create_reduced_contacts_with_group_types ?pd [1, 2] [3, 4] ''LTCF'' 2
                  [1, 0, 0, 0, 0, 1, 0, 0, 0, 0, 0, 0])) 1 ''LTCF''" by blast
  from v r a b d show ?thesis by blast
qed

text \<open>
  Claim C9 as stated fails: a facility whose only resident, uid 6, is also listed with
  its staff \<open>[1, 6]\<close>, every list holding each uid once, built with the two-group
  reduction.  The group of lines 296-303 is \<open>[6, 1, 6]\<close>, three nodes of a complete
  graph, and the edge between its first and its last node makes 6 a contact of 6.
\<close>

theorem make_contacts_self_contact:
  "distinct [6::nat] \<and> distinct [1::nat, 6] \<and>
   contacts_view
     (make_contacts_from_microstructure_objects school_clique
        [(1, 40), (6, 80)] [[1]] [] [] None [] (Some [[6]]) [[1, 6]] True 20 None None [0, 1])
     [6] ''LTCF'' = Done [(6, {1, 6})] \<and>
   (6::nat) \<in> {1, 6}"
  by code_simp

lemma dom_init_popdict:
  "dom (init_popdict b ages sexes pd) \<subseteq> dom pd \<union> fst ` set ages"
proof (induction b ages sexes pd rule: init_popdict.induct)
  case (1 use_ltcf uid a ages s sexes popdict)
  have d: "dom (popdict(uid \<mapsto> new_person use_ltcf a s)) = insert uid (dom popdict)"
    by (simp only: dom_fun_upd option.distinct if_False)
  have "fst ` set ((uid, a) # ages) = insert uid (fst ` set ages)" by simp
  with 1[unfolded d] show ?case by (simp only: init_popdict.simps) blast
qed simp_all

lemma same_layer_dom: "same_layer k pd pd' \<Longrightarrow> dom pd' = dom pd"
proof -
  assume s: "same_layer k pd pd'"
  have "pd' u = None \<longleftrightarrow> pd u = None" for u
    using s[unfolded same_layer_def, rule_format, of u] by (cases "pd u"; cases "pd' u") auto
  then show ?thesis by (auto simp: dom_def)
qed

lemma make_contacts_stages:
  assumes run: "make_contacts_from_microstructure_objects school_contacts age_by_uid_dic
       homes_by_uids schools_by_uids teachers_by_uids non_teaching_staff_uids workplaces_by_uids
       facilities_by_uids facilities_staff_uids use_two_group_reduction average_LTCF_degree
       workplaces_by_industry_codes max_contacts tp = Done s'"
    and sc: "schools_keep_layer school_contacts k" and k: "k \<noteq> ''LTCF''" "k \<noteq> ''H''"
  shows "\<exists>s3. workplace_layer max_contacts workplaces_by_industry_codes (map fst age_by_uid_dic)
                 workplaces_by_uids s3 = Done s' \<and>
              same_layer k
                (init_popdict (facilities_by_uids \<noteq> None) age_by_uid_dic
                   (map (\<lambda>r. r mod 2) (take (length age_by_uid_dic) tp)) Map.empty)
                (fst s3)"
proof -
  let ?pd0 = "init_popdict (facilities_by_uids \<noteq> None) age_by_uid_dic
                (map (\<lambda>r. r mod 2) (take (length age_by_uid_dic) tp)) Map.empty"
  let ?s0 = "(?pd0, drop (length age_by_uid_dic) tp)"
  from run obtain s1 pd2 s3 where
    a: "(case facilities_by_uids of
                None \<Rightarrow> Done ?s0
              | Some facilities \<Rightarrow>
                  for_each (enumerate_list facilities)
                    (facility_step use_two_group_reduction average_LTCF_degree
                       facilities_staff_uids) ?s0) = Done s1" and
    b: "for_each (enumerate_list homes_by_uids) household_step (fst s1) = Done pd2" and
    c: "for_each (enumerate_list schools_by_uids)
          (school_step school_contacts teachers_by_uids non_teaching_staff_uids)
          (pd2, snd s1) = Done s3" and
    d: "workplace_layer max_contacts workplaces_by_industry_codes (map fst age_by_uid_dic)
             workplaces_by_uids s3 = Done s'"
  proof -
    have "\<not> length tp < length age_by_uid_dic"
      using run by (auto simp: make_contacts_from_microstructure_objects_def)
    with run show ?thesis
      unfolding make_contacts_from_microstructure_objects_def Let_def
      using that by (simp only: if_False bind_run_Done) blast
  qed
  have s1: "same_layer k ?pd0 (fst s1)"
  proof (cases facilities_by_uids)
    case None
    with a show ?thesis by (auto simp: same_layer_refl)
  next
    case (Some facilities)
    with a have f: "for_each (enumerate_list facilities)
                    (facility_step use_two_group_reduction average_LTCF_degree
                       facilities_staff_uids) ?s0 = Done s1" by simp
    have "same_layer k (fst ?s0) (fst s1)"
      by (rule for_each_same_fst[OF f]) (rule facility_step_same[OF _ k(1)])
    then show ?thesis by simp
  qed
  have s2: "same_layer k (fst s1) pd2"
    by (rule for_each_same[OF b]) (rule household_step_same[OF _ k(2)])
  have "same_layer k (fst (pd2, snd s1)) (fst s3)"
    by (rule for_each_same_fst[OF c]) (rule school_step_same[OF _ sc])
  then have s3: "same_layer k pd2 (fst s3)" by simp
  from s1 s2 s3 have "same_layer k ?pd0 (fst s3)" by (blast intro: same_layer_trans)
  with d show ?thesis by blast
qed

lemma update_person_contact_set:
  "update_person f uid pd = Done pd' \<Longrightarrow>
     dom pd' = dom pd \<and>
     contact_set pd' u k =
       (if u = uid then (case contacts (f (the (pd uid))) k of None \<Rightarrow> {} | Some s \<Rightarrow> s)
        else contact_set pd u k)"
proof -
  assume "update_person f uid pd = Done pd'"
  then obtain p where p: "pd uid = Some p" "pd' = pd(uid \<mapsto> f p)"
    by (auto simp: update_person_def split: option.splits)
  have "dom pd' = insert uid (dom pd)" unfolding p(2)
    by (simp only: dom_fun_upd option.distinct if_False)
  moreover have "uid \<in> dom pd" using p(1) by blast
  ultimately have "dom pd' = dom pd" by (simp only: insert_absorb)
  then show ?thesis using p by (simp add: contact_set_upd)
qed

lemma set_workplace_contact_set:
  assumes "set_workplace codes nw uids uid pd = Done pd'"
  shows "dom pd' = dom pd \<and>
         contact_set pd' u ''W'' = (if u = uid then uids else contact_set pd u ''W'')"
proof (cases codes)
  case None
  with assms have "update_person (\<lambda>p. (set_contacts ''W'' uids p)\<lparr>wpid := Some nw\<rparr>) uid pd = Done pd'"
    by (simp add: set_workplace_def)
  from update_person_contact_set[OF this, of u "''W''"] show ?thesis
    by (simp add: set_contacts_def)
next
  case (Some cs)
  with assms obtain pd1 where
    a: "update_person (\<lambda>p. (set_contacts ''W'' uids p)\<lparr>wpid := Some nw\<rparr>) uid pd = Done pd1" and
    b: "update_person (\<lambda>p. p\<lparr>wpindcode := Some (cs ! nw)\<rparr>) uid pd1 = Done pd'"
    by (auto simp: set_workplace_def bind_run_Done split: if_splits)
  have "same_layer ''W'' pd1 pd'" using b by (rule update_person_same) simp
  from contact_set_same[OF this, of u] same_layer_dom[OF this]
    update_person_contact_set[OF a, of u "''W''"]
  show ?thesis by (simp add: set_contacts_def)
qed

lemma choice_without_replacement_length:
  "choice_without_replacement n a tp = Done (xs, tp') \<Longrightarrow> length xs = n"
proof (induction n arbitrary: a tp xs)
  case 0
  then show ?case by simp
next
  case (Suc n)
  from Suc.prems obtain x tp1 ys where
    r: "choice_without_replacement n (remove1 x a) tp1 = Done (ys, tp')" and xs: "xs = x # ys"
    by (auto split: run.splits)
  from Suc.IH[OF r] xs show ?case by simp
qed

lemma trim_member_contact_set:
  assumes "trim_member codes m nw wp uid s = Done s'"
  shows "\<exists>uids. finite uids \<and> card uids \<le> nat m \<and> uids \<subseteq> set wp - {uid} \<and>
           dom (fst s') = dom (fst s) \<and>
           (\<forall>u. contact_set (fst s') u ''W''
                 = (if u = uid then uids else contact_set (fst s) u ''W''))"
proof -
  let ?uids = "removeAll uid (remdups wp)"
  have "\<exists>uids pd'. set_workplace codes nw uids uid (fst s) = Done pd' \<and> fst s' = pd' \<and>
          uids \<subseteq> set ?uids \<and> finite uids \<and> card uids \<le> nat m"
  proof (cases "int (length ?uids) > m")
    case True
    with assms obtain sampled tp' pd' where
      c: "choice_without_replacement (nat m) ?uids (snd s) = Done (sampled, tp')" and
      w: "set_workplace codes nw (set sampled) uid (fst s) = Done pd'" and e: "s' = (pd', tp')"
      by (auto simp: trim_member_def Let_def bind_run_Done split: if_splits)
    have "card (set sampled) \<le> nat m"
      using card_length[of sampled] choice_without_replacement_length[OF c] by simp
    with choice_without_replacement_subset[OF c] w e show ?thesis by auto
  next
    case False
    with assms obtain pd' where
      w: "set_workplace codes nw (set ?uids) uid (fst s) = Done pd'" "s' = (pd', snd s)"
      by (auto simp: trim_member_def Let_def bind_run_Done split: if_splits)
    have "card (set ?uids) \<le> nat m" using card_length[of ?uids] False by linarith
    with w show ?thesis by auto
  qed
  then obtain uids pd' where
    w: "set_workplace codes nw uids uid (fst s) = Done pd'" and e: "fst s' = pd'" and
    u: "uids \<subseteq> set ?uids" "finite uids" "card uids \<le> nat m" by blast
  have "uids \<subseteq> set wp - {uid}" using u(1) by auto
  with set_workplace_contact_set[OF w] e u(2,3) show ?thesis by auto
qed

lemma trimmed_workplaces_sampled:
  assumes run: "trimmed_workplaces codes m wps s = Done s'"
    and e: "\<forall>u. contact_set (fst s) u ''W'' = {}"
  shows "dom (fst s') = dom (fst s) \<and>
         (\<forall>u. finite (contact_set (fst s') u ''W'') \<and> card (contact_set (fst s') u ''W'') \<le> nat m \<and>
              (contact_set (fst s') u ''W'' = {} \<or>
               (\<exists>wp\<in>set wps. u \<in> set wp \<and> contact_set (fst s') u ''W'' \<subseteq> set wp - {u})))"
proof -
  let ?P = "\<lambda>t. dom (fst t) = dom (fst s) \<and>
         (\<forall>u. finite (contact_set (fst t) u ''W'') \<and> card (contact_set (fst t) u ''W'') \<le> nat m \<and>
              (contact_set (fst t) u ''W'' = {} \<or>
               (\<exists>wp\<in>set wps. u \<in> set wp \<and> contact_set (fst t) u ''W'' \<subseteq> set wp - {u})))"
  have P0: "?P s" using e by simp
  have member: "?P t'"
    if "wp \<in> set wps" "uid \<in> set wp" "?P t" "trim_member codes m nw wp uid t = Done t'"
    for wp uid nw t t'
  proof -
    from trim_member_contact_set[OF that(4)] obtain uids where
      u: "finite uids" "card uids \<le> nat m" "uids \<subseteq> set wp - {uid}"
         "dom (fst t') = dom (fst t)"
         "\<forall>u. contact_set (fst t') u ''W'' = (if u = uid then uids else contact_set (fst t) u ''W'')"
      by blast
    show ?thesis
    proof (intro conjI allI)
      show "dom (fst t') = dom (fst s)" using u(4) that(3) by simp
    next
      fix v show "finite (contact_set (fst t') v ''W'')" using u(1,5) that(3) by simp
    next
      fix v show "card (contact_set (fst t') v ''W'') \<le> nat m" using u(2,5) that(3) by simp
    next
      fix v
      show "contact_set (fst t') v ''W'' = {} \<or>
            (\<exists>wp\<in>set wps. v \<in> set wp \<and> contact_set (fst t') v ''W'' \<subseteq> set wp - {v})"
      proof (cases "v = uid")
        case True
        then have "contact_set (fst t') v ''W'' = uids" using u(5) by simp
        with u(3) that(1,2) True show ?thesis by blast
      next
        case False
        then have "contact_set (fst t') v ''W'' = contact_set (fst t) v ''W''" using u(5) by simp
        with that(3) show ?thesis by simp
      qed
    qed
  qed
  have step: "?P t'" if "x \<in> set (enumerate_list wps)" "?P t" "trim_step codes m x t = Done t'"
    for x t t'
  proof -
    have wp: "snd x \<in> set wps" using enumerate_list_nth[OF that(1)] by simp
    show ?thesis
    proof (rule for_each_invariant[where P = ?P, OF that(3)[unfolded trim_step_def] that(2)])
      fix uid r r'
      assume "uid \<in> set (snd x)" "?P r" "trim_member codes m (fst x) (snd x) uid r = Done r'"
      from member[OF wp this] show "?P r'" .
    qed
  qed
  show ?thesis
    by (rule for_each_invariant[where P = ?P, OF run[unfolded trimmed_workplaces_def] P0])
       (rule step)
qed

lemma pairing_step_contact_set:
  assumes "pairing_step uid pd = Done pd'"
  shows "contact_set pd' c ''W''
           = contact_set pd c ''W'' \<union> (if c \<in> contact_set pd uid ''W'' then {uid} else {})"
proof -
  from assms obtain p cs where
    p: "pd uid = Some p" "contacts p ''W'' = Some cs" and
    pd': "pd' = (\<lambda>c. if c \<in> cs
                 then map_option (\<lambda>q. set_contacts ''W'' (insert uid (the (contacts q ''W''))) q) (pd c)
                 else pd c)" and
    ok: "\<forall>c\<in>cs. \<exists>q. pd c = Some q \<and> contacts q ''W'' \<noteq> None"
    by (auto simp: pairing_step_def split: option.splits if_splits)
  have cs: "contact_set pd uid ''W'' = cs" using p by (simp add: contact_set_def)
  show ?thesis
  proof (cases "c \<in> cs")
    case False
    with pd' cs show ?thesis by (simp add: contact_set_def)
  next
    case True
    with ok obtain q s where q: "pd c = Some q" "contacts q ''W'' = Some s" by auto
    with True pd' cs show ?thesis by (auto simp: contact_set_def set_contacts_def)
  qed
qed

lemma pairing_pass_contact_set:
  "for_each keys pairing_step pd = Done pd' \<Longrightarrow>
     contact_set pd' c ''W''
       = contact_set pd c ''W'' \<union> {u \<in> set keys. c \<in> contact_set pd u ''W''}"
proof (induction keys arbitrary: pd c)
  case Nil
  then show ?case by simp
next
  case (Cons u us)
  from Cons.prems obtain pd1 where
    s: "pairing_step u pd = Done pd1" and r: "for_each us pairing_step pd1 = Done pd'"
    by (auto split: run.splits)
  note w1 = pairing_step_contact_set[OF s]
  have "contact_set pd' c ''W''
          = contact_set pd1 c ''W'' \<union> {v \<in> set us. c \<in> contact_set pd1 v ''W''}"
    by (rule Cons.IH[OF r])
  also have "\<dots> = contact_set pd c ''W'' \<union> {v \<in> set (u # us). c \<in> contact_set pd v ''W''}"
    unfolding w1 by (auto split: if_splits)
  finally show ?case .
qed

lemma workplace_layer_capped:
  assumes run: "workplace_layer (Some mc) codes keys wps s = Done s'"
    and e: "\<forall>u. contact_set (fst s) u ''W'' = {}" and d: "dom (fst s) \<subseteq> set keys"
  shows "\<exists>outgoing.
          (\<forall>u. finite (outgoing u) \<and> card (outgoing u) \<le> nat (workplace_cap mc div 2) \<and>
                (outgoing u = {} \<or> (\<exists>wp\<in>set wps. u \<in> set wp \<and> outgoing u \<subseteq> set wp - {u}))) \<and>
          (\<forall>a. contact_set (fst s') a ''W'' = outgoing a \<union> {u. a \<in> outgoing u})"
proof -
  from run obtain s1 pd' where
    a: "trimmed_workplaces codes (workplace_cap mc div 2) wps s = Done s1" and
    b: "for_each keys pairing_step (fst s1) = Done pd'" and c: "fst s' = pd'"
    by (auto simp: workplace_layer_def bind_run_Done)
  let ?out = "\<lambda>u. contact_set (fst s1) u ''W''"
  note t = trimmed_workplaces_sampled[OF a e]
  have k: "u \<in> set keys" if "a \<in> ?out u" for a u
  proof -
    have "fst s1 u \<noteq> None" using that by (auto simp: contact_set_def split: option.splits)
    then have "u \<in> dom (fst s1)" by blast
    with t d show ?thesis by auto
  qed
  have "contact_set (fst s') a ''W'' = ?out a \<union> {u. a \<in> ?out u}" for a
    using pairing_pass_contact_set[OF b, of a] c k by auto
  with t show ?thesis by (intro exI[of _ ?out]) simp
qed

text \<open>
  Claim C8.  When \<open>make_contacts_from_microstructure_objects\<close> returns for a configured
  cap \<open>c\<close> of the workplace layer: the loop of lines 237-246 gives each person a set of
  outgoing workplace contacts of at most \<open>c div 2\<close> other members of the person's
  workplace, and the pass of lines 249-251 adds every reverse edge, so that the final
  workplace contacts of a person are the person's outgoing contacts together with
  everybody who has the person as an outgoing contact.  The final relation is therefore
  symmetric, and for a single workplace of 5 people and a cap of 4 nobody ends with more
  than 4 workplace contacts.  The school edges are made by helpers of \<open>schools.py\<close> that
  are not among the sources; they are taken not to touch the layer \<open>W\<close>.
\<close>

theorem workplace_cap_symmetric:
  assumes run: "make_contacts_from_microstructure_objects school_contacts age_by_uid_dic
       homes_by_uids schools_by_uids teachers_by_uids non_teaching_staff_uids workplaces_by_uids
       facilities_by_uids facilities_staff_uids use_two_group_reduction average_LTCF_degree
       workplaces_by_industry_codes (Some max_contacts) tp = Done (popdict, tp')"
    and sc: "schools_keep_layer school_contacts ''W''"
  shows "(\<exists>outgoing.
            (\<forall>u. finite (outgoing u) \<and>
                  card (outgoing u) \<le> nat (workplace_cap max_contacts div 2) \<and>
                  (outgoing u = {} \<or>
                   (\<exists>wp\<in>set workplaces_by_uids. u \<in> set wp \<and> outgoing u \<subseteq> set wp - {u}))) \<and>
            (\<forall>a. contact_set popdict a ''W'' = outgoing a \<union> {u. a \<in> outgoing u})) \<and>
         (\<forall>a b. b \<in> contact_set popdict a ''W'' \<longleftrightarrow> a \<in> contact_set popdict b ''W'') \<and>
         (\<forall>wp. workplaces_by_uids = [wp] \<and> card (set wp) = 5 \<and> workplace_cap max_contacts = 4
            \<longrightarrow> (\<forall>a. card (contact_set popdict a ''W'') \<le> 4))"
proof -
  let ?pd0 = "init_popdict (facilities_by_uids \<noteq> None) age_by_uid_dic
                (map (\<lambda>r. r mod 2) (take (length age_by_uid_dic) tp)) Map.empty"
  from make_contacts_stages[OF run sc] obtain s3 where
    w: "workplace_layer (Some max_contacts) workplaces_by_industry_codes (map fst age_by_uid_dic)
          workplaces_by_uids s3 = Done (popdict, tp')" and
    s: "same_layer ''W'' ?pd0 (fst s3)"
    by auto
  have e0: "contact_set ?pd0 u ''W'' = {}" for u
    by (rule contact_set_init) (simp add: contact_set_def)
  have e: "\<forall>u. contact_set (fst s3) u ''W'' = {}" using contact_set_same[OF s] e0 by simp
  have "dom ?pd0 \<subseteq> set (map fst age_by_uid_dic)"
    using dom_init_popdict[of "facilities_by_uids \<noteq> None" age_by_uid_dic _ Map.empty] by simp
  then have d: "dom (fst s3) \<subseteq> set (map fst age_by_uid_dic)" using same_layer_dom[OF s] by simp
  from workplace_layer_capped[OF w e d] obtain outgoing where
    o: "\<forall>u. finite (outgoing u) \<and> card (outgoing u) \<le> nat (workplace_cap max_contacts div 2) \<and>
             (outgoing u = {} \<or>
              (\<exists>wp\<in>set workplaces_by_uids. u \<in> set wp \<and> outgoing u \<subseteq> set wp - {u}))" and
    f: "\<forall>a. contact_set popdict a ''W'' = outgoing a \<union> {u. a \<in> outgoing u}"
    by auto
  have sym: "\<forall>a b. b \<in> contact_set popdict a ''W'' \<longleftrightarrow> a \<in> contact_set popdict b ''W''"
    using f by auto
  have five: "card (contact_set popdict a ''W'') \<le> 4"
    if h: "workplaces_by_uids = [wp]" "card (set wp) = 5" for wp a
  proof -
    have out: "outgoing u = {} \<or> (u \<in> set wp \<and> outgoing u \<subseteq> set wp - {u})" for u
      using o h(1) by auto
    have sub: "contact_set popdict a ''W'' \<subseteq> set wp - {a}"
    proof
      fix x assume "x \<in> contact_set popdict a ''W''"
      then have "x \<in> outgoing a \<or> a \<in> outgoing x" using f by auto
      then show "x \<in> set wp - {a}" using out[of a] out[of x] by auto
    qed
    show ?thesis
    proof (cases "a \<in> set wp")
      case True
      then have "card (set wp - {a}) = 4" using h(2) by simp
      moreover have "card (contact_set popdict a ''W'') \<le> card (set wp - {a})"
        by (rule card_mono[OF _ sub]) simp
      ultimately show ?thesis by simp
    next
      case False
      have "contact_set popdict a ''W'' = {}"
      proof (rule ccontr)
        assume "contact_set popdict a ''W'' \<noteq> {}"
        then obtain x where "x \<in> outgoing a \<or> a \<in> outgoing x" using f by auto
        then show False using out[of a] out[of x] False by auto
      qed
      then show ?thesis by simp
    qed
  qed
  from o f sym five show ?thesis by blast
qed

theorem workplace_cap_symmetric_witness:
  "contacts_view
     (make_contacts_from_microstructure_objects school_clique
        [(1, 40), (2, 41), (3, 30), (4, 52), (5, 35)]
        [[1, 2], [3, 4, 5]] [] [] None [[1, 2, 3, 4, 5]] None []
        False 20 None (Some [(''W'', 4)])
        [0, 1, 0, 1, 0, 0, 0, 1, 1, 2, 2, 3, 3, 0, 1, 4, 2, 0, 0, 0])
     [1, 2, 3, 4, 5] ''W''
     = Done [(1, {2, 3, 4, 5}), (2, {1, 3, 4}), (3, {1, 2, 4, 5}), (4, {1, 2, 3, 5}),
             (5, {1, 3, 4})] \<and>
   card (set [1::nat, 2, 3, 4, 5]) = 5 \<and> workplace_cap [(''W'', 4)] = 4 \<and>
   (\<exists>popdict tp'.
      make_contacts_from_microstructure_objects school_clique
        [(1, 40), (2, 41), (3, 30), (4, 52), (5, 35)]
        [[1, 2], [3, 4, 5]] [] [] None [[1, 2, 3, 4, 5]] None []
        False 20 None (Some [(''W'', 4)])
        [0, 1, 0, 1, 0, 0, 0, 1, 1, 2, 2, 3, 3, 0, 1, 4, 2, 0, 0, 0]
        = Done (popdict, tp') \<and>
      (5 \<in> contact_set popdict 2 ''W'') = (2 \<in> contact_set popdict 5 ''W'') \<and>
      card (contact_set popdict 1 ''W'') \<le> 4)"
proof -
  let ?r = "make_contacts_from_microstructure_objects school_clique
        [(1, 40), (2, 41), (3, 30), (4, 52), (5, 35)]
        [[1, 2], [3, 4, 5]] [] [] None [[1, 2, 3, 4, 5]] None []
        False 20 None (Some [(''W'', 4)])
        [0, 1, 0, 1, 0, 0, 0, 1, 1, 2, 2, 3, 3, 0, 1, 4, 2, 0, 0, 0]"
  have v: "contacts_view ?r [1, 2, 3, 4, 5] ''W''
             = Done [(1, {2, 3, 4, 5}), (2, {1, 3, 4}), (3, {1, 2, 4, 5}), (4, {1, 2, 3, 5}),
                     (5, {1, 3, 4})]"
    by code_simp
  from contacts_view_Done[OF v] obtain popdict tp' where r: "?r = Done (popdict, tp')" by blast
  have sk: "schools_keep_layer school_clique ''W''" by (rule school_clique_keeps_layer) simp
  have c: "card (set [1::nat, 2, 3, 4, 5]) = 5" by simp
  have w: "workplace_cap [(''W'', 4)] = 4" by (simp add: workplace_cap_def)
  note t = workplace_cap_symmetric [OF r sk]
  from t have s: "(5 \<in> contact_set popdict 2 ''W'') = (2 \<in> contact_set popdict 5 ''W'')"
    by blast
  from t c w have "card (contact_set popdict 1 ''W'') \<le> 4" by blast
  with v c w r s show ?thesis by blast
qed


end
